theory Spec2Isabelle
  imports Complex_Main "HOL-Library.Signed_Division"
begin

section \<open>The area-of-interest engine of aoi.h\<close>

text \<open>
  A shallow embedding of \<^verbatim>\<open>aoi.h\<close>. C's \<^verbatim>\<open>int\<close> is read as a mathematical
  integer: signed overflow is undefined in C, so executions that overflow are outside
  the model. C's \<^verbatim>\<open>/\<close> and \<^verbatim>\<open>%\<close> truncate towards zero and are written
  \<open>sdiv\<close> and \<open>smod\<close>. A \<^verbatim>\<open>struct aoi_object *\<close> always points into
  \<^verbatim>\<open>aoi->slot\<close>, so it is the index of the slot, or \<open>None\<close> for the null pointer.
  The record fields carry the prefixes \<open>o_\<close>, \<open>a_\<close> and \<open>ev_\<close> in front of the
  names of the C fields. The arithmetic of \<^verbatim>\<open>float\<close> is a parameter: the record
  \<open>fops\<close> holds the operations the code uses, and every function that touches a
  \<^verbatim>\<open>float\<close> takes it as its first argument, so a theorem holds for every
  floating-point arithmetic.
\<close>

subsection \<open>Constants\<close>

definition AOI_MAX_AOI_P :: nat where
  "AOI_MAX_AOI_P = 16"

definition AOI_MAX_AOI :: nat where
  "AOI_MAX_AOI = 2 ^ AOI_MAX_AOI_P"

definition AOI_DEF_AOI :: int where
  "AOI_DEF_AOI = 32"

definition AOI_ENTER :: int where
  "AOI_ENTER = 1"

definition AOI_LEAVE :: int where
  "AOI_LEAVE = 2"

definition AOI_OBJECT_INVALID :: int where
  "AOI_OBJECT_INVALID = 0"

definition AOI_OBJECT_RESERVE :: int where
  "AOI_OBJECT_RESERVE = 1"

definition AOI_HASH_ID :: "int \<Rightarrow> nat" where
  "AOI_HASH_ID i = nat (i smod int AOI_MAX_AOI)"

subsection \<open>Data\<close>

type_synonym ptr = "nat option"

text \<open>A heap array of \<^verbatim>\<open>int\<close>: cell 0 is the count, cell 1 the capacity, the
  elements start at cell 2. The cells never written hold 0 in the model.\<close>

type_synonym int_array = "nat \<Rightarrow> int"

record 'f fops =
  f_of_int :: "int \<Rightarrow> 'f"
  f_to_int :: "'f \<Rightarrow> int"
  f_add :: "'f \<Rightarrow> 'f \<Rightarrow> 'f"
  f_mul :: "'f \<Rightarrow> 'f \<Rightarrow> 'f"
  f_div :: "'f \<Rightarrow> 'f \<Rightarrow> 'f"
  f_sqrt :: "'f \<Rightarrow> 'f"
  f_sin :: "'f \<Rightarrow> 'f"
  f_pi :: "'f"
  f_gt :: "'f \<Rightarrow> 'f \<Rightarrow> bool"

record aoi_event =
  ev_id :: int
  ev_e :: int

record 'f aoi_object =
  o_id :: int
  o_p :: "int \<times> int"
  o_sp :: "int \<times> int"
  o_dp :: "int \<times> int"
  o_d :: "'f \<times> 'f"
  o_e :: "'f"
  o_p_tick :: int
  o_n_tick :: int
  o_type :: int
  o_speed :: int
  o_prev :: "ptr \<times> ptr"
  o_next :: "ptr \<times> ptr"
  o_n_list :: int_array
  o_o_list :: int_array
  o_ud :: nat

record 'f aoi =
  a_id :: int
  a_slot :: "nat \<Rightarrow> 'f aoi_object"
  a_list :: "ptr \<times> ptr"
  a_elist :: "nat \<Rightarrow> aoi_event"

text \<open>Arrays of two cells, indexed by the axis 0 or 1.\<close>

definition at2 :: "'a \<times> 'a \<Rightarrow> nat \<Rightarrow> 'a" where
  "at2 v i = (if i = 0 then fst v else snd v)"

definition set2 :: "'a \<times> 'a \<Rightarrow> nat \<Rightarrow> 'a \<Rightarrow> 'a \<times> 'a" where
  "set2 v i x = (if i = 0 then (x, snd v) else (fst v, x))"

text \<open>Reading and writing one field of one slot.\<close>

definition nxt :: "'f aoi \<Rightarrow> nat \<Rightarrow> nat \<Rightarrow> ptr" where
  "nxt a i k = at2 (o_next (a_slot a k)) i"

definition prv :: "'f aoi \<Rightarrow> nat \<Rightarrow> nat \<Rightarrow> ptr" where
  "prv a i k = at2 (o_prev (a_slot a k)) i"

definition pos :: "'f aoi \<Rightarrow> nat \<Rightarrow> nat \<Rightarrow> int" where
  "pos a i k = at2 (o_p (a_slot a k)) i"

definition upd_slot :: "'f aoi \<Rightarrow> nat \<Rightarrow> ('f aoi_object \<Rightarrow> 'f aoi_object) \<Rightarrow> 'f aoi" where
  "upd_slot a k f = a\<lparr>a_slot := (a_slot a)(k := f (a_slot a k))\<rparr>"

definition set_next :: "'f aoi \<Rightarrow> nat \<Rightarrow> nat \<Rightarrow> ptr \<Rightarrow> 'f aoi" where
  "set_next a i k v = upd_slot a k (\<lambda>ob. ob\<lparr>o_next := set2 (o_next ob) i v\<rparr>)"

definition set_prev :: "'f aoi \<Rightarrow> nat \<Rightarrow> nat \<Rightarrow> ptr \<Rightarrow> 'f aoi" where
  "set_prev a i k v = upd_slot a k (\<lambda>ob. ob\<lparr>o_prev := set2 (o_prev ob) i v\<rparr>)"

definition set_head :: "'f aoi \<Rightarrow> nat \<Rightarrow> ptr \<Rightarrow> 'f aoi" where
  "set_head a i v = a\<lparr>a_list := set2 (a_list a) i v\<rparr>"

text \<open>What \<^verbatim>\<open>memset(obj, 0, sizeof *obj)\<close> leaves: \<open>z\<close> is the float 0.\<close>

definition zero_object :: "'f \<Rightarrow> 'f aoi_object" where
  "zero_object z = \<lparr>o_id = 0, o_p = (0, 0), o_sp = (0, 0), o_dp = (0, 0), o_d = (z, z),
     o_e = z, o_p_tick = 0, o_n_tick = 0, o_type = 0, o_speed = 0,
     o_prev = (None, None), o_next = (None, None),
     o_n_list = (\<lambda>_. 0), o_o_list = (\<lambda>_. 0), o_ud = 0\<rparr>"

subsection \<open>The object pool\<close>

definition aoi_init :: "'f fops \<Rightarrow> 'f aoi" where
  "aoi_init F = \<lparr>a_id = 0, a_slot = (\<lambda>_. zero_object (f_of_int F 0)),
     a_list = (None, None), a_elist = (\<lambda>_. \<lparr>ev_id = 0, ev_e = 0\<rparr>)\<rparr>"

text \<open>\<^verbatim>\<open>_aoi_next_id\<close>: the loop counter \<open>i\<close> runs from 0 to \<open>AOI_MAX_AOI\<close>.\<close>

function aoi_next_id_loop :: "'f fops \<Rightarrow> nat \<Rightarrow> 'f aoi \<Rightarrow> int \<times> 'f aoi" where
  "aoi_next_id_loop F i a =
     (if i < AOI_MAX_AOI then
        (let id0 = a_id a;
             a1 = a\<lparr>a_id := a_id a + 1\<rparr>;
             id1 = (if id0 < 0 then a_id a1 + 0x7fffffff else id0);
             k = AOI_HASH_ID id1
         in if o_type (a_slot a1 k) = AOI_OBJECT_INVALID then
              (id1, upd_slot a1 k (\<lambda>_. (zero_object (f_of_int F 0))
                      \<lparr>o_id := id1, o_type := AOI_OBJECT_RESERVE\<rparr>))
            else aoi_next_id_loop F (i + 1) a1)
      else (- 1, a))"
  by pat_completeness auto
termination
  by (relation "measure (\<lambda>(F, i, a). AOI_MAX_AOI - i)") auto

declare aoi_next_id_loop.simps [simp del]

definition aoi_next_id :: "'f fops \<Rightarrow> 'f aoi \<Rightarrow> int \<times> 'f aoi" where
  "aoi_next_id F a = aoi_next_id_loop F 0 a"

text \<open>\<^verbatim>\<open>_aoi_object\<close>: the slot of a live id, or the null pointer.\<close>

definition aoi_object_lookup :: "'f aoi \<Rightarrow> int \<Rightarrow> ptr" where
  "aoi_object_lookup a i =
     (if i < 0 then None
      else (let k = AOI_HASH_ID i
            in if o_id (a_slot a k) \<noteq> i \<or> o_type (a_slot a k) = AOI_OBJECT_INVALID
               then None else Some k))"

text \<open>What \<^verbatim>\<open>malloc((AOI_DEF_AOI + 2)*sizeof(int))\<close> holds after the two header
  cells are written.\<close>

definition new_list :: int_array where
  "new_list = (\<lambda>_. 0)(0 := 0, 1 := AOI_DEF_AOI)"

definition enter_link :: "'f aoi \<Rightarrow> nat \<Rightarrow> nat \<Rightarrow> 'f aoi" where
  "enter_link a obj i =
     (let a1 = set_next a i obj (at2 (a_list a) i);
          a2 = (case at2 (a_list a1) i of
                  Some h \<Rightarrow> set_prev a1 i h (Some obj)
                | None \<Rightarrow> a1)
      in set_head a2 i (Some obj))"

definition aoi_enter :: "'f fops \<Rightarrow> 'f aoi \<Rightarrow> nat \<Rightarrow> int \<times> 'f aoi" where
  "aoi_enter F a ud =
     (case aoi_next_id F a of (i, a1) \<Rightarrow>
        if - 1 = i then (- 1, a1)
        else (case aoi_object_lookup a1 i of
                None \<Rightarrow> (- 1, a1)
              | Some obj \<Rightarrow>
                  (let a2 = enter_link (enter_link a1 obj 0) obj 1;
                       a3 = upd_slot a2 obj (\<lambda>ob. ob\<lparr>o_n_list := new_list\<rparr>);
                       a4 = upd_slot a3 obj (\<lambda>ob. ob\<lparr>o_o_list := new_list\<rparr>);
                       a5 = upd_slot a4 obj (\<lambda>ob. ob\<lparr>o_ud := ud\<rparr>)
                   in (i, a5))))"

subsection \<open>The two axis lists\<close>

definition aoi_list_erase :: "'f aoi \<Rightarrow> nat \<Rightarrow> nat \<Rightarrow> 'f aoi" where
  "aoi_list_erase a i obj =
     (let a1 = (case prv a i obj of
                  Some q \<Rightarrow> set_next a i q (nxt a i obj)
                | None \<Rightarrow> set_head a i (nxt a i obj));
          a2 = (case nxt a1 i obj of
                  Some q \<Rightarrow> set_prev a1 i q (prv a1 i obj)
                | None \<Rightarrow> a1);
          a3 = set_next a2 i obj None
      in set_prev a3 i obj None)"

definition aoi_list_insert_after :: "'f aoi \<Rightarrow> nat \<Rightarrow> nat \<Rightarrow> nat \<Rightarrow> 'f aoi" where
  "aoi_list_insert_after a i obj q =
     (if obj = q then a
      else (let a1 = set_next a i obj (nxt a i q);
                a2 = set_prev a1 i obj (Some q);
                a3 = (case nxt a2 i q of
                        Some r \<Rightarrow> set_prev a2 i r (Some obj)
                      | None \<Rightarrow> a2)
            in set_next a3 i q (Some obj)))"

definition aoi_list_insert_before :: "'f aoi \<Rightarrow> nat \<Rightarrow> nat \<Rightarrow> nat \<Rightarrow> 'f aoi" where
  "aoi_list_insert_before a i obj q =
     (if obj = q then a
      else (let a1 = set_next a i obj (Some q);
                a2 = set_prev a1 i obj (prv a1 i q);
                a3 = (case prv a2 i q of
                        Some r \<Rightarrow> set_next a2 i r (Some obj)
                      | None \<Rightarrow> set_head a2 i (Some obj))
            in set_prev a3 i q (Some obj)))"

text \<open>The two \<^verbatim>\<open>while (p)\<close> loops of \<^verbatim>\<open>_aoi_update_list\<close>: the node at which
  the loop breaks. \<open>p\<close> is never null inside the loop, since it starts at \<open>obj\<close> and
  only moves to a non-null neighbour. On a cyclic list the loop may run forever.\<close>

partial_function (option) walk_next :: "'f aoi \<Rightarrow> nat \<Rightarrow> nat \<Rightarrow> nat \<Rightarrow> nat option" where
  "walk_next a i obj q =
     (case nxt a i q of
        None \<Rightarrow> Some q
      | Some r \<Rightarrow> if pos a i r > pos a i obj then Some q else walk_next a i obj r)"

partial_function (option) walk_prev :: "'f aoi \<Rightarrow> nat \<Rightarrow> nat \<Rightarrow> nat \<Rightarrow> nat option" where
  "walk_prev a i obj q =
     (case prv a i q of
        None \<Rightarrow> Some q
      | Some r \<Rightarrow> if pos a i r < pos a i obj then Some q else walk_prev a i obj r)"

definition update_axis :: "'f aoi \<Rightarrow> nat \<Rightarrow> int \<times> int \<Rightarrow> nat \<Rightarrow> 'f aoi option" where
  "update_axis a obj d i =
     (if at2 d i > 0 then
        (case walk_next a i obj obj of
           None \<Rightarrow> None
         | Some q \<Rightarrow>
             if q \<noteq> obj then Some (aoi_list_insert_after (aoi_list_erase a i obj) i obj q)
             else Some a)
      else if at2 d i < 0 then
        (case walk_prev a i obj obj of
           None \<Rightarrow> None
         | Some q \<Rightarrow>
             if q \<noteq> obj then Some (aoi_list_insert_before (aoi_list_erase a i obj) i obj q)
             else Some a)
      else Some a)"

definition aoi_update_list :: "'f aoi \<Rightarrow> nat \<Rightarrow> int \<times> int \<Rightarrow> 'f aoi option" where
  "aoi_update_list a obj d =
     (case update_axis a obj d 0 of
        None \<Rightarrow> None
      | Some a1 \<Rightarrow> update_axis a1 obj d 1)"

definition aoi_leave :: "'f fops \<Rightarrow> 'f aoi \<Rightarrow> int \<Rightarrow> 'f aoi" where
  "aoi_leave F a i =
     (case aoi_object_lookup a i of
        None \<Rightarrow> a
      | Some obj \<Rightarrow>
          (let a1 = aoi_list_erase (aoi_list_erase a 0 obj) 1 obj;
               a2 = upd_slot a1 obj (\<lambda>_. zero_object (f_of_int F 0))
           in upd_slot a2 obj (\<lambda>ob. ob\<lparr>o_type := AOI_OBJECT_INVALID\<rparr>)))"

definition aoi_ud :: "'f aoi \<Rightarrow> int \<Rightarrow> nat" where
  "aoi_ud a i = (case aoi_object_lookup a i of Some obj \<Rightarrow> o_ud (a_slot a obj) | None \<Rightarrow> 0)"

subsection \<open>Movement\<close>

definition aoi_locate :: "'f aoi \<Rightarrow> int \<Rightarrow> int \<Rightarrow> int \<Rightarrow> 'f aoi option" where
  "aoi_locate a i x y =
     (case aoi_object_lookup a i of
        None \<Rightarrow> Some a
      | Some obj \<Rightarrow>
          (let d = (x - pos a 0 obj, y - pos a 1 obj);
               a1 = upd_slot a obj (\<lambda>ob. ob\<lparr>o_p := set2 (o_p ob) 0 x\<rparr>);
               a2 = upd_slot a1 obj (\<lambda>ob. ob\<lparr>o_p := set2 (o_p ob) 1 y\<rparr>)
           in aoi_update_list a2 obj d))"

definition aoi_move :: "'f fops \<Rightarrow> 'f aoi \<Rightarrow> int \<Rightarrow> int \<Rightarrow> int \<Rightarrow> 'f aoi" where
  "aoi_move F a i x y =
     (case aoi_object_lookup a i of
        None \<Rightarrow> a
      | Some obj \<Rightarrow>
          if o_speed (a_slot a obj) \<le> 0 \<or> (x = pos a 0 obj \<and> y = pos a 1 obj) then a
          else (let ob = a_slot a obj;
                    d0 = x - at2 (o_p ob) 0;
                    d1 = y - at2 (o_p ob) 1;
                    c = f_sqrt F (f_of_int F (d0 * d0 + d1 * d1))
                in upd_slot a obj (\<lambda>ob. ob\<lparr>o_sp := o_p ob, o_dp := (x, y),
                     o_d := (f_div F (f_of_int F d0) c, f_div F (f_of_int F d1) c),
                     o_e := f_div F (f_mul F (f_pi F) (f_of_int F (o_speed ob))) c,
                     o_n_tick := f_to_int F c sdiv o_speed ob,
                     o_p_tick := 0\<rparr>)))"

definition aoi_speed :: "'f fops \<Rightarrow> 'f aoi \<Rightarrow> int \<Rightarrow> int \<Rightarrow> 'f aoi" where
  "aoi_speed F a i speed =
     (case aoi_object_lookup a i of
        None \<Rightarrow> a
      | Some obj \<Rightarrow>
          (let a1 = upd_slot a obj (\<lambda>ob. ob\<lparr>o_speed := speed\<rparr>)
           in if o_n_tick (a_slot a1 obj) > 0
              then aoi_move F a1 (o_id (a_slot a1 obj))
                     (at2 (o_dp (a_slot a1 obj)) 0) (at2 (o_dp (a_slot a1 obj)) 1)
              else a1))"

text \<open>The position of a moving step, per axis:
  \<^verbatim>\<open>(int)(sp[i] + d[i]*speed*p_tick + ((i << 1) - 1)*d[i]*s)\<close>.\<close>

definition step_pos :: "'f fops \<Rightarrow> 'f aoi_object \<Rightarrow> 'f \<Rightarrow> nat \<Rightarrow> int" where
  "step_pos F ob s i =
     f_to_int F
       (f_add F
          (f_add F (f_of_int F (at2 (o_sp ob) i))
             (f_mul F (f_mul F (at2 (o_d ob) i) (f_of_int F (o_speed ob)))
                (f_of_int F (o_p_tick ob))))
          (f_mul F (f_mul F (f_of_int F (2 * int i - 1)) (at2 (o_d ob) i)) s))"

definition aoi_object_update :: "'f fops \<Rightarrow> 'f aoi \<Rightarrow> nat \<Rightarrow> int \<Rightarrow> 'f aoi option" where
  "aoi_object_update F a obj tick =
     (let ti = min tick (o_n_tick (a_slot a obj));
          a1 = upd_slot a obj (\<lambda>ob. ob\<lparr>o_n_tick := o_n_tick ob - ti\<rparr>);
          a2 = upd_slot a1 obj (\<lambda>ob. ob\<lparr>o_p_tick := o_p_tick ob + ti\<rparr>);
          sg = (\<lambda>i. if f_gt F (at2 (o_d (a_slot a2 obj)) i) (f_of_int F 0) then 1 else - 1);
          d = (sg 0, sg 1);
          a3 = (if o_n_tick (a_slot a2 obj) \<le> 0 then
                  upd_slot a2 obj (\<lambda>ob. ob\<lparr>o_p := o_dp ob\<rparr>)
                else
                  (let ob = a_slot a2 obj;
                       t = f_mul F (o_e ob) (f_of_int F (o_p_tick ob));
                       s = f_mul F (f_sin F t) (f_sin F t)
                   in upd_slot a2 obj
                        (\<lambda>ob. ob\<lparr>o_p := (step_pos F ob s 0, step_pos F ob s 1)\<rparr>)))
      in aoi_update_list a3 obj d)"

definition aoi_update :: "'f fops \<Rightarrow> 'f aoi \<Rightarrow> int \<Rightarrow> int \<Rightarrow> 'f aoi option" where
  "aoi_update F a i tick =
     (case aoi_object_lookup a i of
        None \<Rightarrow> Some a
      | Some obj \<Rightarrow>
          if o_type (a_slot a obj) = AOI_OBJECT_INVALID \<or> o_speed (a_slot a obj) \<le> 0
          then Some a
          else if o_n_tick (a_slot a obj) \<le> 0 then Some a
          else aoi_object_update F a obj tick)"

definition aoi_pos :: "'f aoi \<Rightarrow> int \<Rightarrow> int \<times> int \<Rightarrow> int \<times> int" where
  "aoi_pos a i pxy =
     (case aoi_object_lookup a i of
        None \<Rightarrow> pxy
      | Some obj \<Rightarrow> (pos a 0 obj, pos a 1 obj))"

definition aoi_moving :: "'f aoi \<Rightarrow> int \<Rightarrow> int" where
  "aoi_moving a i =
     (case aoi_object_lookup a i of
        None \<Rightarrow> 0
      | Some obj \<Rightarrow> if o_n_tick (a_slot a obj) > 0 then 1 else 0)"

subsection \<open>Neighbour lists\<close>

text \<open>The inner loop of \<^verbatim>\<open>_insert_list\<close>:
  \<^verbatim>\<open>for (j = cur + 1; j >= i; j--) list[j + 1] = list[j];\<close>\<close>

function shift_up :: "int_array \<Rightarrow> int \<Rightarrow> int \<Rightarrow> int_array" where
  "shift_up l i j =
     (if j \<ge> i then shift_up (l(nat (j + 1) := l (nat j))) i (j - 1) else l)"
  by pat_completeness auto
termination
  by (relation "measure (\<lambda>(l, i, j). nat (j + 1 - i))") auto

declare shift_up.simps [simp del]

function insert_scan :: "int_array \<Rightarrow> int \<Rightarrow> int \<Rightarrow> int \<Rightarrow> int_array" where
  "insert_scan l v cur i =
     (if i \<le> cur + 1 then
        (if v < l (nat i) then
           (let l1 = shift_up l i (cur + 1);
                l2 = l1(nat i := v)
            in l2(0 := l2 0 + 1))
         else if v = l (nat i) then l
         else insert_scan l v cur (i + 1))
      else l)"
  by pat_completeness auto
termination
  by (relation "measure (\<lambda>(l, v, cur, i). nat (cur + 2 - i))") auto

declare insert_scan.simps [simp del]

text \<open>\<^verbatim>\<open>_insert_list\<close>; \<^verbatim>\<open>realloc\<close> keeps the cells and the model records
  the new capacity only.\<close>

definition insert_list :: "int_array \<Rightarrow> int \<Rightarrow> int_array" where
  "insert_list l v =
     (let cur = l 0;
          l1 = (if cur \<ge> l 1 then l(1 := l 1 * 2) else l)
      in if cur = 0 \<or> v > l1 (nat (cur + 1)) then
           (let l2 = l1(nat (cur + 2) := v) in l2(0 := l2 0 + 1))
         else insert_scan l1 v cur 2)"

function find_scan :: "int_array \<Rightarrow> int \<Rightarrow> int \<Rightarrow> int \<Rightarrow> int" where
  "find_scan l v cur i =
     (if i \<le> cur + 1 then
        (if v = l (nat i) then 1 else find_scan l v cur (i + 1))
      else 0)"
  by pat_completeness auto
termination
  by (relation "measure (\<lambda>(l, v, cur, i). nat (cur + 2 - i))") auto

declare find_scan.simps [simp del]

definition find_list :: "int_array \<Rightarrow> int \<Rightarrow> int" where
  "find_list l v =
     (let cur = l 0
      in if cur = 0 \<or> v > l (nat (cur + 1)) then 0 else find_scan l v cur 2)"

subsection \<open>The scan\<close>

text \<open>One \<^verbatim>\<open>while (p)\<close> walk of \<^verbatim>\<open>aoi_trigger\<close> along the x axis, backwards for
  \<open>i = 0\<close> and forwards otherwise; it returns \<^verbatim>\<open>cur_list\<close>.\<close>

partial_function (option) trigger_walk ::
  "'f aoi \<Rightarrow> nat \<Rightarrow> int \<Rightarrow> int \<Rightarrow> nat \<Rightarrow> ptr \<Rightarrow> int_array \<Rightarrow> int_array option" where
  "trigger_walk a obj enter_r leave_r i p cur_list =
     (case p of
        None \<Rightarrow> Some cur_list
      | Some q \<Rightarrow>
          (let dx = \<bar>pos a 0 obj - pos a 0 q\<bar>;
               dy = \<bar>pos a 1 obj - pos a 1 q\<bar>;
               d = dx * dx + dy * dy
           in if dx > leave_r then Some cur_list
              else
                (let cl = (if d \<le> enter_r * enter_r then
                             insert_list cur_list (o_id (a_slot a q))
                           else if d \<le> leave_r * leave_r then
                             (if find_list (o_o_list (a_slot a obj)) (o_id (a_slot a q)) \<noteq> 0
                              then insert_list cur_list (o_id (a_slot a q))
                              else cur_list)
                           else cur_list)
                 in trigger_walk a obj enter_r leave_r i
                      (if i = 0 then prv a 0 q else nxt a 0 q) cl)))"

text \<open>The event loops. \<open>el\<close> is \<^verbatim>\<open>aoi->elist\<close> and \<open>r\<close> the number of events.\<close>

function enter_all ::
  "(nat \<Rightarrow> aoi_event) \<Rightarrow> int \<Rightarrow> int_array \<Rightarrow> int \<Rightarrow> (nat \<Rightarrow> aoi_event) \<times> int" where
  "enter_all el r cur_list i =
     (if i < cur_list 0 then
        enter_all (el(nat r := \<lparr>ev_id = cur_list (nat (i + 2)), ev_e = AOI_ENTER\<rparr>))
          (r + 1) cur_list (i + 1)
      else (el, r))"
  by pat_completeness auto
termination
  by (relation "measure (\<lambda>(el, r, cur_list, i). nat (cur_list 0 - i))") auto

declare enter_all.simps [simp del]

function emit_rest ::
  "(nat \<Rightarrow> aoi_event) \<Rightarrow> int \<Rightarrow> int_array \<Rightarrow> int \<Rightarrow> int \<Rightarrow> int
     \<Rightarrow> (nat \<Rightarrow> aoi_event) \<times> int" where
  "emit_rest el r l e i hi =
     (if i \<le> hi then
        emit_rest (el(nat r := \<lparr>ev_id = l (nat i), ev_e = e\<rparr>)) (r + 1) l e (i + 1) hi
      else (el, r))"
  by pat_completeness auto
termination
  by (relation "measure (\<lambda>(el, r, l, e, i, hi). nat (hi + 1 - i))") auto

declare emit_rest.simps [simp del]

function trigger_diff ::
  "'f aoi \<Rightarrow> int_array \<Rightarrow> int_array \<Rightarrow> int \<Rightarrow> int \<Rightarrow> int \<Rightarrow> int
     \<Rightarrow> (nat \<Rightarrow> aoi_event) \<Rightarrow> int \<Rightarrow> (nat \<Rightarrow> aoi_event) \<times> int" where
  "trigger_diff a o_list cur_list o_cnt n_cnt o_i n_i el r =
     (if o_i > o_cnt + 1 then emit_rest el r cur_list AOI_ENTER n_i (n_cnt + 1)
      else if n_i > n_cnt + 1 then emit_rest el r o_list AOI_LEAVE o_i (o_cnt + 1)
      else if aoi_object_lookup a (o_list (nat o_i)) = None then
        trigger_diff a o_list cur_list o_cnt n_cnt (o_i + 1) n_i el r
      else if cur_list (nat n_i) < o_list (nat o_i) then
        trigger_diff a o_list cur_list o_cnt n_cnt o_i (n_i + 1)
          (el(nat r := \<lparr>ev_id = cur_list (nat n_i), ev_e = AOI_ENTER\<rparr>)) (r + 1)
      else if cur_list (nat n_i) = o_list (nat o_i) then
        trigger_diff a o_list cur_list o_cnt n_cnt (o_i + 1) (n_i + 1) el r
      else
        trigger_diff a o_list cur_list o_cnt n_cnt (o_i + 1) n_i
          (el(nat r := \<lparr>ev_id = o_list (nat o_i), ev_e = AOI_LEAVE\<rparr>)) (r + 1))"
  by pat_completeness auto
termination
  by (relation "measure (\<lambda>(a, o_list, cur_list, o_cnt, n_cnt, o_i, n_i, el, r).
        nat (o_cnt + 2 - o_i) + nat (n_cnt + 2 - n_i))") auto

declare trigger_diff.simps [simp del]

text \<open>\<^verbatim>\<open>aoi_trigger\<close> returns the number of events; the events are the first cells
  of \<open>a_elist\<close> of the returned state (\<^verbatim>\<open>*list = aoi->elist\<close>).\<close>

definition aoi_trigger :: "'f aoi \<Rightarrow> int \<Rightarrow> int \<Rightarrow> int \<Rightarrow> (int \<times> 'f aoi) option" where
  "aoi_trigger a i enter_r leave_r =
     (case aoi_object_lookup a i of
        None \<Rightarrow> Some (0, a)
      | Some obj \<Rightarrow>
          (let cur0 = (o_n_list (a_slot a obj))(0 := 0)
           in case trigger_walk a obj enter_r leave_r 0 (prv a 0 obj) cur0 of
                None \<Rightarrow> None
              | Some cur1 \<Rightarrow>
                  (case trigger_walk a obj enter_r leave_r 1 (nxt a 0 obj) cur1 of
                     None \<Rightarrow> None
                   | Some cur_list \<Rightarrow>
                       (let o_list = o_o_list (a_slot a obj);
                            (el, r) =
                              (if o_list 0 = 0 then enter_all (a_elist a) 0 cur_list 0
                               else trigger_diff a o_list cur_list (o_list 0) (cur_list 0)
                                      2 2 (a_elist a) 0);
                            a1 = a\<lparr>a_elist := el\<rparr>;
                            a2 = upd_slot a1 obj (\<lambda>ob. ob\<lparr>o_n_list := o_o_list ob\<rparr>);
                            a3 = upd_slot a2 obj (\<lambda>ob. ob\<lparr>o_o_list := cur_list\<rparr>)
                        in Some (r, a3)))))"

text \<open>\<^verbatim>\<open>aoi_around\<close>: \<open>out\<close> is the caller's array; the result is the array after
  the copy and the count returned.\<close>

function around_copy :: "int_array \<Rightarrow> int_array \<Rightarrow> int \<Rightarrow> int \<Rightarrow> int_array" where
  "around_copy out l n i =
     (if i < n then around_copy (out(nat i := l (nat i))) l n (i + 1) else out)"
  by pat_completeness auto
termination
  by (relation "measure (\<lambda>(out, l, n, i). nat (n - i))") auto

declare around_copy.simps [simp del]

definition aoi_around :: "'f aoi \<Rightarrow> int \<Rightarrow> int_array \<Rightarrow> int \<Rightarrow> int_array \<times> int" where
  "aoi_around a i out n =
     (case aoi_object_lookup a i of
        None \<Rightarrow> (out, 0)
      | Some obj \<Rightarrow>
          (let l = o_n_list (a_slot a obj);
               n1 = (if n > l 0 then l 0 else n)
           in (around_copy out l n1 0, n1)))"

subsection \<open>Sequences of calls\<close>

text \<open>A caller is a list of calls of the API. \<open>exec\<close> makes one call and gives what
  the call returns with the state it leaves; \<open>None\<close> stands for a call that does not
  return. The caller's output cells of \<^verbatim>\<open>aoi_pos\<close> and \<^verbatim>\<open>aoi_around\<close> hold 0
  before the call; \<open>RAround\<close> lists the cells \<^verbatim>\<open>aoi_around\<close> reports as written.\<close>

datatype call =
  Enter nat
  | Leave int
  | Ud int
  | Locate int int int
  | Move int int int
  | Speed int int
  | Update int int
  | Pos int
  | Trigger int int int
  | Moving int
  | Around int int

datatype reply =
  RId int
  | RDone
  | RUd nat
  | RPos "int \<times> int"
  | REvents "aoi_event list"
  | RMoving int
  | RAround "int list"

definition events_of :: "'f aoi \<Rightarrow> int \<Rightarrow> aoi_event list" where
  "events_of a r = map (a_elist a) [0..<nat r]"

fun exec :: "'f fops \<Rightarrow> 'f aoi \<Rightarrow> call \<Rightarrow> (reply \<times> 'f aoi) option" where
  "exec F a (Enter ud) = (case aoi_enter F a ud of (i, a1) \<Rightarrow> Some (RId i, a1))"
| "exec F a (Leave i) = Some (RDone, aoi_leave F a i)"
| "exec F a (Ud i) = Some (RUd (aoi_ud a i), a)"
| "exec F a (Locate i x y) = map_option (Pair RDone) (aoi_locate a i x y)"
| "exec F a (Move i x y) = Some (RDone, aoi_move F a i x y)"
| "exec F a (Speed i v) = Some (RDone, aoi_speed F a i v)"
| "exec F a (Update i t) = map_option (Pair RDone) (aoi_update F a i t)"
| "exec F a (Pos i) = Some (RPos (aoi_pos a i (0, 0)), a)"
| "exec F a (Trigger i enter_r leave_r) =
     map_option (\<lambda>(r, a1). (REvents (events_of a1 r), a1)) (aoi_trigger a i enter_r leave_r)"
| "exec F a (Moving i) = Some (RMoving (aoi_moving a i), a)"
| "exec F a (Around i n) =
     (case aoi_around a i (\<lambda>_. 0) n of (out, k) \<Rightarrow> Some (RAround (map out [0..<nat k]), a))"

fun run :: "'f fops \<Rightarrow> 'f aoi \<Rightarrow> call list \<Rightarrow> (reply list \<times> 'f aoi) option" where
  "run F a [] = Some ([], a)"
| "run F a (c # cs) =
     (case exec F a c of
        None \<Rightarrow> None
      | Some (x, a1) \<Rightarrow> map_option (\<lambda>(xs, a2). (x # xs, a2)) (run F a1 cs))"

text \<open>The states a caller can reach from \<^verbatim>\<open>aoi_init\<close>.\<close>

definition reachable :: "'f fops \<Rightarrow> 'f aoi \<Rightarrow> bool" where
  "reachable F a \<longleftrightarrow> (\<exists>cs xs. run F (aoi_init F) cs = Some (xs, a))"

text \<open>The float operations read exactly, over the reals: the instance used to run the
  code on concrete inputs.\<close>

definition exact_fops :: "real fops" where
  "exact_fops = \<lparr>f_of_int = real_of_int,
     f_to_int = (\<lambda>x. if x < 0 then - \<lfloor>- x\<rfloor> else \<lfloor>x\<rfloor>),
     f_add = (+), f_mul = (*), f_div = (/), f_sqrt = sqrt, f_sin = sin, f_pi = pi,
     f_gt = (\<lambda>x y. x > y)\<rparr>"

text \<open>An object without its links, and two states that differ in links only.\<close>

definition strip_links :: "'f aoi_object \<Rightarrow> 'f aoi_object" where
  "strip_links ob = ob\<lparr>o_prev := (None, None), o_next := (None, None)\<rparr>"

definition same_objects :: "'f aoi \<Rightarrow> 'f aoi \<Rightarrow> bool" where
  "same_objects a b \<longleftrightarrow> a_id b = a_id a \<and> a_elist b = a_elist a \<and>
     (\<forall>k. strip_links (a_slot b k) = strip_links (a_slot a k))"

text \<open>The pool after \<open>n\<close> creations from the initial state: the counter is \<open>n\<close>,
  slot \<open>k < n\<close> holds id \<open>k\<close>, the other slots are free.\<close>

definition pool_after :: "nat \<Rightarrow> 'f aoi \<Rightarrow> bool" where
  "pool_after n a \<longleftrightarrow> a_id a = int n \<and>
     (\<forall>k. (k < n \<longrightarrow> o_type (a_slot a k) = AOI_OBJECT_RESERVE \<and> o_id (a_slot a k) = int k) \<and>
          (n \<le> k \<longrightarrow> o_type (a_slot a k) = AOI_OBJECT_INVALID))"

text \<open>The successor and the predecessor of a cell in a list of slots, and the first cell.\<close>

fun succ_in :: "nat list \<Rightarrow> nat \<Rightarrow> ptr" where
  "succ_in [] x = None"
| "succ_in [y] x = None"
| "succ_in (y # z # zs) x = (if x = y then Some z else succ_in (z # zs) x)"

definition pred_in :: "nat list \<Rightarrow> nat \<Rightarrow> ptr" where
  "pred_in xs x = succ_in (rev xs) x"

definition hd_opt :: "nat list \<Rightarrow> ptr" where
  "hd_opt xs = (case xs of [] \<Rightarrow> None | x # _ \<Rightarrow> Some x)"

text \<open>Axis \<open>i\<close> of the state is the doubly linked list \<open>xs\<close>: \<^verbatim>\<open>aoi->list[i]\<close> points to
  the first cell, and \<^verbatim>\<open>next[i]\<close> and \<^verbatim>\<open>prev[i]\<close> of every cell point to its
  neighbours in \<open>xs\<close>.\<close>

definition dll :: "'f aoi \<Rightarrow> nat \<Rightarrow> nat list \<Rightarrow> bool" where
  "dll a i xs \<longleftrightarrow> distinct xs \<and> at2 (a_list a) i = hd_opt xs \<and>
     (\<forall>x \<in> set xs. nxt a i x = succ_in xs x \<and> prv a i x = pred_in xs x)"

definition live :: "'f aoi \<Rightarrow> nat \<Rightarrow> bool" where
  "live a k \<longleftrightarrow> o_type (a_slot a k) \<noteq> AOI_OBJECT_INVALID"

text \<open>The invariant of the engine: the counter is above every id in use, a used slot
  holds an id that hashes to it, and each axis is a doubly linked list of exactly the
  used slots.\<close>

definition aoi_wf :: "'f aoi \<Rightarrow> bool" where
  "aoi_wf a \<longleftrightarrow> 0 \<le> a_id a \<and>
     (\<forall>k. live a k \<longrightarrow> 0 \<le> o_id (a_slot a k) \<and> o_id (a_slot a k) < a_id a \<and>
        AOI_HASH_ID (o_id (a_slot a k)) = k) \<and>
     (\<exists>xs. dll a 0 xs \<and> set xs = {k. live a k}) \<and>
     (\<exists>ys. dll a 1 ys \<and> set ys = {k. live a k})"

text \<open>What a state keeps of another when the links of axis \<open>i\<close> only are rewritten.\<close>

definition relinked :: "nat \<Rightarrow> 'f aoi \<Rightarrow> 'f aoi \<Rightarrow> bool" where
  "relinked i a b \<longleftrightarrow> same_objects a b \<and>
     (\<forall>j. (i = 0) \<noteq> (j = 0) \<longrightarrow> at2 (a_list b) j = at2 (a_list a) j \<and>
        (\<forall>x. nxt b j x = nxt a j x \<and> prv b j x = prv a j x))"

text \<open>Axis \<open>i\<close> is in order: every entity in use has a coordinate no greater than the
  coordinate of the entity its \<^verbatim>\<open>next[i]\<close> points to.\<close>

definition axis_sorted :: "'f aoi \<Rightarrow> nat \<Rightarrow> bool" where
  "axis_sorted a i \<longleftrightarrow> (\<forall>k q. live a k \<and> nxt a i k = Some q \<longrightarrow> pos a i k \<le> pos a i q)"

text \<open>The ids a neighbour list holds: cell 0 is the count and the ids are in the
  cells from 2 on.\<close>

definition ids :: "int_array \<Rightarrow> int set" where
  "ids l = {l c | c. 2 \<le> c \<and> int c \<le> l 0 + 1}"

text \<open>A neighbour list whose count is not negative and whose ids increase strictly.\<close>

definition increasing :: "int_array \<Rightarrow> bool" where
  "increasing l \<longleftrightarrow> 0 \<le> l 0 \<and> (\<forall>j k. 2 \<le> j \<and> j < k \<and> int k \<le> l 0 + 1 \<longrightarrow> l j < l k)"

text \<open>The cells a walk meets: \<open>p\<close> points to the first cell of \<open>ps\<close>, \<open>f\<close> leads from
  each cell to the one after it, and from the last one to null.\<close>

fun linked :: "(nat \<Rightarrow> ptr) \<Rightarrow> ptr \<Rightarrow> nat list \<Rightarrow> bool" where
  "linked f p [] \<longleftrightarrow> p = None"
| "linked f p (q # qs) \<longleftrightarrow> p = Some q \<and> linked f (f q) qs"

text \<open>The test that keeps a walk of \<^verbatim>\<open>aoi_trigger\<close> going (\<^verbatim>\<open>dx > leave_r\<close> breaks
  it), and the test that puts the id of a cell into the new list.\<close>

definition near :: "'f aoi \<Rightarrow> nat \<Rightarrow> int \<Rightarrow> nat \<Rightarrow> bool" where
  "near a obj leave_r q \<longleftrightarrow> \<not> leave_r < \<bar>pos a 0 obj - pos a 0 q\<bar>"

definition seen :: "'f aoi \<Rightarrow> nat \<Rightarrow> int \<Rightarrow> int \<Rightarrow> int_array \<Rightarrow> nat \<Rightarrow> bool" where
  "seen a obj enter_r leave_r ol q \<longleftrightarrow>
     (let dx = \<bar>pos a 0 obj - pos a 0 q\<bar>;
          dy = \<bar>pos a 1 obj - pos a 1 q\<bar>;
          d = dx * dx + dy * dy
      in d \<le> enter_r * enter_r \<or>
         (d \<le> leave_r * leave_r \<and> find_list ol (o_id (a_slot a q)) \<noteq> 0))"





section \<open>Running the code on concrete inputs\<close>

text \<open>The equations that evaluate a sequence of calls; with \<open>let_weak_cong\<close> the
  simplifier computes the value bound by a \<open>let\<close> before it enters the body.\<close>

lemmas run_simps =
  aoi_init_def aoi_enter_def aoi_next_id_def aoi_next_id_loop.simps aoi_object_lookup_def
  AOI_HASH_ID_def AOI_MAX_AOI_def AOI_MAX_AOI_P_def upd_slot_def set_next_def set_prev_def
  set_head_def at2_def set2_def nxt_def prv_def pos_def zero_object_def enter_link_def
  new_list_def AOI_OBJECT_INVALID_def AOI_OBJECT_RESERVE_def signed_modulo_int_def
  signed_divide_int_def aoi_locate_def aoi_update_list_def update_axis_def walk_next.simps
  walk_prev.simps aoi_list_erase_def aoi_list_insert_after_def aoi_list_insert_before_def
  aoi_trigger_def trigger_walk.simps insert_list_def find_list_def insert_scan.simps
  find_scan.simps shift_up.simps enter_all.simps emit_rest.simps trigger_diff.simps
  events_of_def AOI_ENTER_def AOI_LEAVE_def AOI_DEF_AOI_def aoi_leave_def aoi_around_def
  around_copy.simps aoi_move_def aoi_speed_def aoi_update_def aoi_object_update_def
  aoi_moving_def aoi_pos_def aoi_ud_def Let_def upt_conv_Cons

lemma sqrt_100: "sqrt 100 = 10"
  by (rule real_sqrt_unique) simp_all

section \<open>Looking an id up\<close>

lemma lookup_SomeD:
  assumes "aoi_object_lookup a i = Some obj"
  shows "obj = AOI_HASH_ID i" "o_id (a_slot a obj) = i" "o_type (a_slot a obj) \<noteq> AOI_OBJECT_INVALID" "0 \<le> i"
  using assms by (auto simp: aoi_object_lookup_def Let_def split: if_splits)

lemma lookup_cong:
  assumes "o_id (a_slot b (AOI_HASH_ID i)) = o_id (a_slot a (AOI_HASH_ID i))"
    and "o_type (a_slot b (AOI_HASH_ID i)) = o_type (a_slot a (AOI_HASH_ID i))"
  shows "aoi_object_lookup b i = aoi_object_lookup a i"
  using assms by (simp add: aoi_object_lookup_def)

section \<open>The concrete scenario\<close>

text \<open>
  C1. Entity A (id 0) is created and placed at (0,0), entity B (id 1) is created and
  placed at (200,0). With enter radius 100 and leave radius 130 the first scan of A
  returns no event; after B is teleported to (90,0) the scan of A returns exactly one
  ENTER event for B; after B is teleported to (125,0) it returns no event; after B is
  teleported to (140,0) it returns exactly one LEAVE event for B. The same holds when
  both entities are created before either is placed.
\<close>

theorem c1_scenario:
  "map_option fst (run F (aoi_init F)
     [Enter 0, Locate 0 0 0, Enter 0, Locate 1 200 0, Trigger 0 100 130,
      Locate 1 90 0, Trigger 0 100 130, Locate 1 125 0, Trigger 0 100 130,
      Locate 1 140 0, Trigger 0 100 130]) =
   Some [RId 0, RDone, RId 1, RDone, REvents [],
      RDone, REvents [\<lparr>ev_id = 1, ev_e = AOI_ENTER\<rparr>], RDone, REvents [],
      RDone, REvents [\<lparr>ev_id = 1, ev_e = AOI_LEAVE\<rparr>]]
   \<and> map_option fst (run F (aoi_init F)
     [Enter 0, Enter 0, Locate 0 0 0, Locate 1 200 0, Trigger 0 100 130,
      Locate 1 90 0, Trigger 0 100 130, Locate 1 125 0, Trigger 0 100 130,
      Locate 1 140 0, Trigger 0 100 130]) =
   Some [RId 0, RId 1, RDone, RDone, REvents [],
      RDone, REvents [\<lparr>ev_id = 1, ev_e = AOI_ENTER\<rparr>], RDone, REvents [],
      RDone, REvents [\<lparr>ev_id = 1, ev_e = AOI_LEAVE\<rparr>]]"
proof
  show "map_option fst (run F (aoi_init F)
     [Enter 0, Locate 0 0 0, Enter 0, Locate 1 200 0, Trigger 0 100 130,
      Locate 1 90 0, Trigger 0 100 130, Locate 1 125 0, Trigger 0 100 130,
      Locate 1 140 0, Trigger 0 100 130]) =
   Some [RId 0, RDone, RId 1, RDone, REvents [],
      RDone, REvents [\<lparr>ev_id = 1, ev_e = AOI_ENTER\<rparr>], RDone, REvents [],
      RDone, REvents [\<lparr>ev_id = 1, ev_e = AOI_LEAVE\<rparr>]]"
    by (simp add: run_simps cong: let_weak_cong)
  show "map_option fst (run F (aoi_init F)
     [Enter 0, Enter 0, Locate 0 0 0, Locate 1 200 0, Trigger 0 100 130,
      Locate 1 90 0, Trigger 0 100 130, Locate 1 125 0, Trigger 0 100 130,
      Locate 1 140 0, Trigger 0 100 130]) =
   Some [RId 0, RId 1, RDone, RDone, REvents [],
      RDone, REvents [\<lparr>ev_id = 1, ev_e = AOI_ENTER\<rparr>], RDone, REvents [],
      RDone, REvents [\<lparr>ev_id = 1, ev_e = AOI_LEAVE\<rparr>]]"
    by (simp add: run_simps cong: let_weak_cong)
qed

theorem c1_scenario_witness:
  "map_option fst (run exact_fops (aoi_init exact_fops)
     [Enter 0, Locate 0 0 0, Enter 0, Locate 1 200 0, Trigger 0 100 130,
      Locate 1 90 0, Trigger 0 100 130, Locate 1 125 0, Trigger 0 100 130,
      Locate 1 140 0, Trigger 0 100 130]) =
   Some [RId 0, RDone, RId 1, RDone, REvents [],
      RDone, REvents [\<lparr>ev_id = 1, ev_e = 1\<rparr>], RDone, REvents [],
      RDone, REvents [\<lparr>ev_id = 1, ev_e = 2\<rparr>]]"
  using c1_scenario [of exact_fops] by (simp add: AOI_ENTER_def AOI_LEAVE_def)

section \<open>Destroyed neighbours in the scan\<close>

text \<open>
  C2 says that an id of the previous snapshot whose entity was destroyed never gets a
  LEAVE event. The merge loop of \<^verbatim>\<open>aoi_trigger\<close> tests \<^verbatim>\<open>_aoi_object(aoi, o)\<close> only
  while both lists have cells left; the loop that flushes the rest of the old list
  does not. Entities 0 and 1 stand on the same point, entity 0 scans (ENTER 1), entity
  1 is destroyed, entity 0 scans again: the new list is empty and the destroyed id 1
  gets a LEAVE event. With a third entity 2 on the same point the new list still holds
  2 when the merge reaches the destroyed id 1, and id 1 is dropped without an event.
\<close>

theorem c2_destroyed_neighbour_leave:
  "map_option fst (run F (aoi_init F)
     [Enter 0, Enter 0, Trigger 0 100 130, Leave 1, Trigger 0 100 130]) =
   Some [RId 0, RId 1, REvents [\<lparr>ev_id = 1, ev_e = AOI_ENTER\<rparr>], RDone,
      REvents [\<lparr>ev_id = 1, ev_e = AOI_LEAVE\<rparr>]]
   \<and> map_option fst (run F (aoi_init F)
     [Enter 0, Enter 0, Enter 0, Trigger 0 100 130, Leave 1, Trigger 0 100 130]) =
   Some [RId 0, RId 1, RId 2,
      REvents [\<lparr>ev_id = 1, ev_e = AOI_ENTER\<rparr>, \<lparr>ev_id = 2, ev_e = AOI_ENTER\<rparr>], RDone,
      REvents []]"
proof
  show "map_option fst (run F (aoi_init F)
     [Enter 0, Enter 0, Trigger 0 100 130, Leave 1, Trigger 0 100 130]) =
   Some [RId 0, RId 1, REvents [\<lparr>ev_id = 1, ev_e = AOI_ENTER\<rparr>], RDone,
      REvents [\<lparr>ev_id = 1, ev_e = AOI_LEAVE\<rparr>]]"
    by (simp add: run_simps cong: let_weak_cong)
  show "map_option fst (run F (aoi_init F)
     [Enter 0, Enter 0, Enter 0, Trigger 0 100 130, Leave 1, Trigger 0 100 130]) =
   Some [RId 0, RId 1, RId 2,
      REvents [\<lparr>ev_id = 1, ev_e = AOI_ENTER\<rparr>, \<lparr>ev_id = 2, ev_e = AOI_ENTER\<rparr>], RDone,
      REvents []]"
    by (simp add: run_simps cong: let_weak_cong)
qed

theorem c2_destroyed_neighbour_leave_witness:
  "map_option fst (run exact_fops (aoi_init exact_fops)
     [Enter 0, Enter 0, Trigger 0 100 130, Leave 1, Trigger 0 100 130]) =
   Some [RId 0, RId 1, REvents [\<lparr>ev_id = 1, ev_e = 1\<rparr>], RDone,
      REvents [\<lparr>ev_id = 1, ev_e = 2\<rparr>]]"
  using c2_destroyed_neighbour_leave [of exact_fops]
  by (simp add: AOI_ENTER_def AOI_LEAVE_def)

section \<open>Reading the neighbours\<close>

text \<open>
  C6 says that \<^verbatim>\<open>aoi_around\<close> returns the first ids of the snapshot of the last
  scan. Entities 0, 1 and 2 stand on the same point and entity 0 scans: its snapshot
  is 1, 2. \<^verbatim>\<open>aoi_trigger\<close> ends by exchanging the two lists, so \<^verbatim>\<open>n_list\<close>, which
  \<^verbatim>\<open>aoi_around\<close> reads, is the list of the scan before: \<^verbatim>\<open>aoi_around\<close> with room
  for two ids returns nothing. After a second scan it returns two cells, and they are
  cells 0 and 1 of the array, the count 2 and the capacity 32, since the copy reads
  \<^verbatim>\<open>n_list[i]\<close> and the ids start at cell 2.
\<close>

theorem c6_around_reads_header_of_old_list:
  "map_option fst (run F (aoi_init F)
     [Enter 0, Enter 0, Enter 0, Trigger 0 100 130, Around 0 2,
      Trigger 0 100 130, Around 0 2]) =
   Some [RId 0, RId 1, RId 2,
      REvents [\<lparr>ev_id = 1, ev_e = AOI_ENTER\<rparr>, \<lparr>ev_id = 2, ev_e = AOI_ENTER\<rparr>],
      RAround [], REvents [], RAround [2, AOI_DEF_AOI]]"
  by (simp add: run_simps cong: let_weak_cong)

theorem c6_around_reads_header_of_old_list_witness:
  "map_option fst (run exact_fops (aoi_init exact_fops)
     [Enter 0, Enter 0, Enter 0, Trigger 0 100 130, Around 0 2,
      Trigger 0 100 130, Around 0 2]) =
   Some [RId 0, RId 1, RId 2,
      REvents [\<lparr>ev_id = 1, ev_e = 1\<rparr>, \<lparr>ev_id = 2, ev_e = 1\<rparr>],
      RAround [], REvents [], RAround [2, 32]]"
  using c6_around_reads_header_of_old_list [of exact_fops]
  by (simp add: AOI_ENTER_def AOI_DEF_AOI_def)

section \<open>Starting a move\<close>

text \<open>
  C8. \<^verbatim>\<open>aoi_move\<close> leaves the whole state as it is when the id is stale or invalid
  (\<^verbatim>\<open>_aoi_object\<close> returns the null pointer), when the speed of the entity is zero or
  negative, or when the destination is the position \<^verbatim>\<open>aoi_pos\<close> reports.
\<close>

theorem c8_move_noop:
  assumes "aoi_object_lookup a i = None \<or>
    (\<exists>obj. aoi_object_lookup a i = Some obj \<and>
       (o_speed (a_slot a obj) \<le> 0 \<or> aoi_pos a i pxy = (x, y)))"
  shows "aoi_move F a i x y = a"
  using assms by (auto simp: aoi_move_def aoi_pos_def)

theorem c8_move_noop_witness:
  "aoi_object_lookup (snd (aoi_enter exact_fops (aoi_init exact_fops) 0)) 7 = None
   \<and> aoi_move exact_fops (snd (aoi_enter exact_fops (aoi_init exact_fops) 0)) 7 1 1 =
       snd (aoi_enter exact_fops (aoi_init exact_fops) 0)
   \<and> aoi_object_lookup (snd (aoi_enter exact_fops (aoi_init exact_fops) 0)) 0 = Some 0
   \<and> o_speed (a_slot (snd (aoi_enter exact_fops (aoi_init exact_fops) 0)) 0) = 0
   \<and> aoi_move exact_fops (snd (aoi_enter exact_fops (aoi_init exact_fops) 0)) 0 5 5 =
       snd (aoi_enter exact_fops (aoi_init exact_fops) 0)
   \<and> aoi_pos (aoi_speed exact_fops (snd (aoi_enter exact_fops (aoi_init exact_fops) 0)) 0 3)
         0 (9, 9) = (0, 0)
   \<and> aoi_move exact_fops
         (aoi_speed exact_fops (snd (aoi_enter exact_fops (aoi_init exact_fops) 0)) 0 3) 0 0 0 =
       aoi_speed exact_fops (snd (aoi_enter exact_fops (aoi_init exact_fops) 0)) 0 3"
proof -
  let ?s = "snd (aoi_enter exact_fops (aoi_init exact_fops) 0)"
  let ?t = "aoi_speed exact_fops ?s 0 3"
  have h1: "aoi_object_lookup ?s 7 = None"
    by (simp add: run_simps cong: let_weak_cong)
  have h2: "aoi_object_lookup ?s 0 = Some 0"
    by (simp add: run_simps cong: let_weak_cong)
  have h3: "o_speed (a_slot ?s 0) = 0"
    by (simp add: run_simps cong: let_weak_cong)
  have h4: "aoi_object_lookup ?t 0 = Some 0"
    by (simp add: run_simps cong: let_weak_cong)
  have h5: "aoi_pos ?t 0 (9, 9) = (0, 0)"
    by (simp add: run_simps cong: let_weak_cong)
  have "aoi_move exact_fops ?s 7 1 1 = ?s"
    using h1 by (intro c8_move_noop) simp
  moreover have "aoi_move exact_fops ?s 0 5 5 = ?s"
    using h2 h3 by (intro c8_move_noop) simp
  moreover have "aoi_move exact_fops ?t 0 0 0 = ?t"
    using h4 h5 by (intro c8_move_noop [where pxy = "(9, 9)"]) simp
  ultimately show ?thesis using h1 h2 h3 h5 by simp
qed

section \<open>Speed zero in the middle of a move\<close>

text \<open>
  C10. When a live entity has remaining ticks \<open>n_tick > 0\<close>, \<^verbatim>\<open>aoi_speed\<close> with
  speed 0 keeps the remaining ticks, so \<^verbatim>\<open>aoi_moving\<close> returns 1 afterwards, and
  every \<^verbatim>\<open>aoi_update\<close> after it, however many and with whatever ticks, returns the
  state unchanged: position and remaining ticks stay.
\<close>

lemma speed_zero_state:
  assumes "aoi_object_lookup a i = Some obj" and "o_n_tick (a_slot a obj) > 0"
  shows "aoi_speed F a i 0 = upd_slot a obj (\<lambda>ob. ob\<lparr>o_speed := 0\<rparr>)"
proof -
  let ?a1 = "upd_slot a obj (\<lambda>ob. ob\<lparr>o_speed := 0\<rparr>)"
  have id: "o_id (a_slot ?a1 obj) = i" and obj: "obj = AOI_HASH_ID i"
    using lookup_SomeD[OF assms(1)] by (simp_all add: upd_slot_def)
  have "aoi_object_lookup ?a1 i = aoi_object_lookup a i"
    by (rule lookup_cong) (simp_all add: upd_slot_def)
  then have lk: "aoi_object_lookup ?a1 i = Some obj" using assms(1) by simp
  have "aoi_move F ?a1 i x y = ?a1" for x y
    using lk by (simp add: aoi_move_def upd_slot_def)
  then show ?thesis
    using assms id by (simp add: aoi_speed_def Let_def)
qed

theorem c10_speed_zero_mid_move:
  assumes "aoi_object_lookup a i = Some obj" and "o_n_tick (a_slot a obj) > 0"
  shows "o_n_tick (a_slot (aoi_speed F a i 0) obj) = o_n_tick (a_slot a obj)
    \<and> aoi_moving (aoi_speed F a i 0) i = 1
    \<and> (\<forall>t. aoi_update F (aoi_speed F a i 0) i t = Some (aoi_speed F a i 0))
    \<and> (\<forall>ts. run F (aoi_speed F a i 0) (map (Update i) ts) =
          Some (map (\<lambda>_. RDone) ts, aoi_speed F a i 0))
    \<and> aoi_pos (aoi_speed F a i 0) i pxy = aoi_pos a i pxy"
proof -
  let ?a1 = "upd_slot a obj (\<lambda>ob. ob\<lparr>o_speed := 0\<rparr>)"
  have eq: "aoi_speed F a i 0 = ?a1" by (rule speed_zero_state[OF assms])
  have "aoi_object_lookup ?a1 i = aoi_object_lookup a i"
    by (rule lookup_cong) (simp_all add: upd_slot_def)
  then have lk: "aoi_object_lookup ?a1 i = Some obj" using assms(1) by simp
  have n: "o_n_tick (a_slot ?a1 obj) = o_n_tick (a_slot a obj)"
    by (simp add: upd_slot_def)
  have mv: "aoi_moving ?a1 i = 1"
    using lk assms(2) by (simp add: aoi_moving_def upd_slot_def)
  have up: "aoi_update F ?a1 i t = Some ?a1" for t
    using lk by (simp add: aoi_update_def upd_slot_def)
  have rn: "run F ?a1 (map (Update i) ts) = Some (map (\<lambda>_. RDone) ts, ?a1)" for ts
    by (induction ts) (simp_all add: up)
  have ps: "aoi_pos ?a1 i pxy = aoi_pos a i pxy"
    using lk assms(1) by (simp add: aoi_pos_def pos_def upd_slot_def)
  show ?thesis unfolding eq using n mv up rn ps by simp
qed


theorem c10_speed_zero_mid_move_witness:
  "aoi_object_lookup (aoi_move exact_fops
      (aoi_speed exact_fops (snd (aoi_enter exact_fops (aoi_init exact_fops) 0)) 0 1) 0 10 0) 0
     = Some 0
   \<and> o_n_tick (a_slot (aoi_move exact_fops
      (aoi_speed exact_fops (snd (aoi_enter exact_fops (aoi_init exact_fops) 0)) 0 1) 0 10 0) 0)
     = 10
   \<and> aoi_moving (aoi_speed exact_fops (aoi_move exact_fops
      (aoi_speed exact_fops (snd (aoi_enter exact_fops (aoi_init exact_fops) 0)) 0 1) 0 10 0)
      0 0) 0 = 1
   \<and> aoi_update exact_fops (aoi_speed exact_fops (aoi_move exact_fops
      (aoi_speed exact_fops (snd (aoi_enter exact_fops (aoi_init exact_fops) 0)) 0 1) 0 10 0)
      0 0) 0 10
     = Some (aoi_speed exact_fops (aoi_move exact_fops
      (aoi_speed exact_fops (snd (aoi_enter exact_fops (aoi_init exact_fops) 0)) 0 1) 0 10 0)
      0 0)"
proof -
  let ?s = "aoi_move exact_fops
      (aoi_speed exact_fops (snd (aoi_enter exact_fops (aoi_init exact_fops) 0)) 0 1) 0 10 0"
  have h1: "aoi_object_lookup ?s 0 = Some 0"
    by (simp add: run_simps exact_fops_def sqrt_100 cong: let_weak_cong)
  have h2: "o_n_tick (a_slot ?s 0) = 10"
    by (simp add: run_simps exact_fops_def sqrt_100 cong: let_weak_cong)
  have h3: "o_n_tick (a_slot ?s 0) > 0" using h2 by simp
  show ?thesis
    using c10_speed_zero_mid_move [OF h1 h3, of exact_fops "(0, 0)"] h1 h2 by simp
qed

section \<open>The pool\<close>

lemma AOI_MAX_AOI_pos: "0 < AOI_MAX_AOI"
  by (simp add: AOI_MAX_AOI_def)

lemma hash_lt: "AOI_HASH_ID x < AOI_MAX_AOI"
proof (cases "0 \<le> x")
  case True
  then have "x smod int AOI_MAX_AOI = x mod int AOI_MAX_AOI"
    by (simp add: signed_modulo_int_def sgn_if abs_if)
  moreover have "x mod int AOI_MAX_AOI < int AOI_MAX_AOI" "0 \<le> x mod int AOI_MAX_AOI"
    using AOI_MAX_AOI_pos by simp_all
  ultimately show ?thesis by (simp add: AOI_HASH_ID_def nat_less_iff)
next
  case False
  then have "x smod int AOI_MAX_AOI \<le> 0"
    using AOI_MAX_AOI_pos by (simp add: signed_modulo_int_def sgn_if)
  then show ?thesis using AOI_MAX_AOI_pos by (simp add: AOI_HASH_ID_def)
qed

lemma hash_nonneg: "0 \<le> x \<Longrightarrow> AOI_HASH_ID x = nat (x mod int AOI_MAX_AOI)"
  by (simp add: AOI_HASH_ID_def signed_modulo_int_def sgn_if abs_if)

lemma hash_small: "k < AOI_MAX_AOI \<Longrightarrow> AOI_HASH_ID (int k) = k"
  by (simp add: hash_nonneg)

lemma hash_shift: "0 \<le> x \<Longrightarrow> AOI_HASH_ID (x + int AOI_MAX_AOI) = AOI_HASH_ID x"
  by (simp add: hash_nonneg)

lemma next_id_loop_full:
  assumes "\<forall>k < AOI_MAX_AOI. o_type (a_slot a k) \<noteq> AOI_OBJECT_INVALID"
  shows "aoi_next_id_loop F i a = (- 1, a\<lparr>a_id := a_id a + int (AOI_MAX_AOI - i)\<rparr>)"
  using assms
proof (induction "AOI_MAX_AOI - i" arbitrary: i a)
  case 0
  then show ?case by (subst aoi_next_id_loop.simps) simp
next
  case (Suc n)
  then have lt: "i < AOI_MAX_AOI" by simp
  let ?a1 = "a\<lparr>a_id := a_id a + 1\<rparr>"
  have occ: "o_type (a_slot ?a1 k) \<noteq> AOI_OBJECT_INVALID" if "k < AOI_MAX_AOI" for k
    using Suc.prems that by simp
  have ih: "aoi_next_id_loop F (i + 1) ?a1 = (- 1, ?a1\<lparr>a_id := a_id ?a1 + int (AOI_MAX_AOI - (i + 1))\<rparr>)"
    using Suc.hyps(2) occ by (intro Suc.hyps(1)) auto
  have "int (AOI_MAX_AOI - i) = 1 + int (AOI_MAX_AOI - (i + 1))" using lt by simp
  then show ?case
    using lt occ[OF hash_lt] ih by (subst aoi_next_id_loop.simps) (simp add: Let_def)
qed

lemma next_id_loop_finds:
  assumes "0 \<le> a_id a" and "i + j < AOI_MAX_AOI"
    and "o_type (a_slot a (AOI_HASH_ID (a_id a + int j))) = AOI_OBJECT_INVALID"
    and "\<forall>l < j. o_type (a_slot a (AOI_HASH_ID (a_id a + int l))) \<noteq> AOI_OBJECT_INVALID"
  shows "aoi_next_id_loop F i a =
    (a_id a + int j,
     upd_slot (a\<lparr>a_id := a_id a + int j + 1\<rparr>) (AOI_HASH_ID (a_id a + int j))
       (\<lambda>_. (zero_object (f_of_int F 0))\<lparr>o_id := a_id a + int j, o_type := AOI_OBJECT_RESERVE\<rparr>))"
  using assms
proof (induction j arbitrary: i a)
  case 0
  then show ?case by (subst aoi_next_id_loop.simps) (simp add: Let_def)
next
  case (Suc j)
  let ?a1 = "a\<lparr>a_id := a_id a + 1\<rparr>"
  have occ: "o_type (a_slot a (AOI_HASH_ID (a_id a))) \<noteq> AOI_OBJECT_INVALID"
    using Suc.prems(4) by (auto dest: spec[where x = 0])
  have shift: "a_id ?a1 + int l = a_id a + int (Suc l)" for l by simp
  have ih: "aoi_next_id_loop F (i + 1) ?a1 =
    (a_id ?a1 + int j,
     upd_slot (?a1\<lparr>a_id := a_id ?a1 + int j + 1\<rparr>) (AOI_HASH_ID (a_id ?a1 + int j))
       (\<lambda>_. (zero_object (f_of_int F 0))\<lparr>o_id := a_id ?a1 + int j, o_type := AOI_OBJECT_RESERVE\<rparr>))"
  proof (rule Suc.IH)
    show "0 \<le> a_id ?a1" using Suc.prems(1) by simp
    show "i + 1 + j < AOI_MAX_AOI" using Suc.prems(2) by simp
    show "o_type (a_slot ?a1 (AOI_HASH_ID (a_id ?a1 + int j))) = AOI_OBJECT_INVALID"
      using Suc.prems(3) by (simp add: add.assoc)
    show "\<forall>l<j. o_type (a_slot ?a1 (AOI_HASH_ID (a_id ?a1 + int l))) \<noteq> AOI_OBJECT_INVALID"
    proof (intro allI impI)
      fix l assume "l < j"
      then have "Suc l < Suc j" by simp
      with Suc.prems(4) have "o_type (a_slot a (AOI_HASH_ID (a_id a + int (Suc l)))) \<noteq> AOI_OBJECT_INVALID"
        by blast
      then show "o_type (a_slot ?a1 (AOI_HASH_ID (a_id ?a1 + int l))) \<noteq> AOI_OBJECT_INVALID"
        by (simp add: add.assoc)
    qed
  qed
  have lt: "i < AOI_MAX_AOI" using Suc.prems(2) by simp
  show ?case
    using lt occ Suc.prems(1) ih
    by (subst aoi_next_id_loop.simps) (simp add: Let_def upd_slot_def add.assoc)
qed

lemma slot_set_next [simp]:
  "a_slot (set_next a i k v) j =
     (if j = k then (a_slot a k)\<lparr>o_next := set2 (o_next (a_slot a k)) i v\<rparr> else a_slot a j)"
  by (simp add: set_next_def upd_slot_def)

lemma slot_set_prev [simp]:
  "a_slot (set_prev a i k v) j =
     (if j = k then (a_slot a k)\<lparr>o_prev := set2 (o_prev (a_slot a k)) i v\<rparr> else a_slot a j)"
  by (simp add: set_prev_def upd_slot_def)

lemma slot_set_head [simp]: "a_slot (set_head a i v) = a_slot a"
  by (simp add: set_head_def)

lemma slot_upd_slot [simp]:
  "a_slot (upd_slot a k f) j = (if j = k then f (a_slot a k) else a_slot a j)"
  by (simp add: upd_slot_def)

lemma a_id_set [simp]:
  "a_id (set_next a i k v) = a_id a" "a_id (set_prev a i k v) = a_id a"
  "a_id (set_head a i v) = a_id a" "a_id (upd_slot a k f) = a_id a"
  by (simp_all add: set_next_def set_prev_def set_head_def upd_slot_def)

lemma a_list_set [simp]:
  "a_list (set_next a i k v) = a_list a" "a_list (set_prev a i k v) = a_list a"
  "a_list (set_head a i v) = set2 (a_list a) i v" "a_list (upd_slot a k f) = a_list a"
  by (simp_all add: set_next_def set_prev_def set_head_def upd_slot_def)

lemma a_elist_set [simp]:
  "a_elist (set_next a i k v) = a_elist a" "a_elist (set_prev a i k v) = a_elist a"
  "a_elist (set_head a i v) = a_elist a" "a_elist (upd_slot a k f) = a_elist a"
  by (simp_all add: set_next_def set_prev_def set_head_def upd_slot_def)

lemma strip_links_simps [simp]:
  "strip_links (ob\<lparr>o_next := v\<rparr>) = strip_links ob"
  "strip_links (ob\<lparr>o_prev := w\<rparr>) = strip_links ob"
  by (simp_all add: strip_links_def)

lemma same_objects_refl [simp]: "same_objects a a"
  by (simp add: same_objects_def)

lemma same_objects_trans: "same_objects a b \<Longrightarrow> same_objects b c \<Longrightarrow> same_objects a c"
  by (simp add: same_objects_def)

lemma same_objects_set [simp]:
  "same_objects a (set_next a i k v)" "same_objects a (set_prev a i k v)"
  "same_objects a (set_head a i v)"
  by (simp_all add: same_objects_def)

lemma same_objects_step:
  "same_objects a b \<Longrightarrow> same_objects a (set_next b i k v)"
  "same_objects a b \<Longrightarrow> same_objects a (set_prev b i k v)"
  "same_objects a b \<Longrightarrow> same_objects a (set_head b i v)"
  by (simp_all add: same_objects_def)

lemma same_objects_erase: "same_objects a (aoi_list_erase a i obj)"
  by (simp add: aoi_list_erase_def Let_def same_objects_step split: option.split)

lemma same_objects_insert_after: "same_objects a (aoi_list_insert_after a i obj q)"
  by (simp add: aoi_list_insert_after_def Let_def same_objects_step split: option.split)

lemma same_objects_insert_before: "same_objects a (aoi_list_insert_before a i obj q)"
  by (simp add: aoi_list_insert_before_def Let_def same_objects_step split: option.split)

lemma same_objects_enter_link: "same_objects a (enter_link a obj i)"
  by (simp add: enter_link_def Let_def same_objects_step split: option.split)

lemma same_objects_fields:
  assumes "same_objects a b"
  shows "o_type (a_slot b k) = o_type (a_slot a k)" "o_id (a_slot b k) = o_id (a_slot a k)"
    "o_p (a_slot b k) = o_p (a_slot a k)" "o_speed (a_slot b k) = o_speed (a_slot a k)"
    "o_n_tick (a_slot b k) = o_n_tick (a_slot a k)" "o_p_tick (a_slot b k) = o_p_tick (a_slot a k)"
    "o_dp (a_slot b k) = o_dp (a_slot a k)" "o_sp (a_slot b k) = o_sp (a_slot a k)"
    "o_n_list (a_slot b k) = o_n_list (a_slot a k)" "o_o_list (a_slot b k) = o_o_list (a_slot a k)"
    "o_d (a_slot b k) = o_d (a_slot a k)" "o_e (a_slot b k) = o_e (a_slot a k)"
    "o_ud (a_slot b k) = o_ud (a_slot a k)"
    "a_id b = a_id a" "a_elist b = a_elist a"
proof -
  have eq: "strip_links (a_slot b k) = strip_links (a_slot a k)"
    using assms by (simp add: same_objects_def)
  show "o_type (a_slot b k) = o_type (a_slot a k)"
    using arg_cong[OF eq, of o_type] by (simp add: strip_links_def)
  show "o_id (a_slot b k) = o_id (a_slot a k)"
    using arg_cong[OF eq, of o_id] by (simp add: strip_links_def)
  show "o_p (a_slot b k) = o_p (a_slot a k)"
    using arg_cong[OF eq, of o_p] by (simp add: strip_links_def)
  show "o_speed (a_slot b k) = o_speed (a_slot a k)"
    using arg_cong[OF eq, of o_speed] by (simp add: strip_links_def)
  show "o_n_tick (a_slot b k) = o_n_tick (a_slot a k)"
    using arg_cong[OF eq, of o_n_tick] by (simp add: strip_links_def)
  show "o_p_tick (a_slot b k) = o_p_tick (a_slot a k)"
    using arg_cong[OF eq, of o_p_tick] by (simp add: strip_links_def)
  show "o_dp (a_slot b k) = o_dp (a_slot a k)"
    using arg_cong[OF eq, of o_dp] by (simp add: strip_links_def)
  show "o_sp (a_slot b k) = o_sp (a_slot a k)"
    using arg_cong[OF eq, of o_sp] by (simp add: strip_links_def)
  show "o_n_list (a_slot b k) = o_n_list (a_slot a k)"
    using arg_cong[OF eq, of o_n_list] by (simp add: strip_links_def)
  show "o_o_list (a_slot b k) = o_o_list (a_slot a k)"
    using arg_cong[OF eq, of o_o_list] by (simp add: strip_links_def)
  show "o_d (a_slot b k) = o_d (a_slot a k)"
    using arg_cong[OF eq, of o_d] by (simp add: strip_links_def)
  show "o_e (a_slot b k) = o_e (a_slot a k)"
    using arg_cong[OF eq, of o_e] by (simp add: strip_links_def)
  show "o_ud (a_slot b k) = o_ud (a_slot a k)"
    using arg_cong[OF eq, of o_ud] by (simp add: strip_links_def)
  show "a_id b = a_id a" "a_elist b = a_elist a"
    using assms by (simp_all add: same_objects_def)
qed

lemma same_objects_lookup: "same_objects a b \<Longrightarrow> aoi_object_lookup b i = aoi_object_lookup a i"
  by (simp add: aoi_object_lookup_def same_objects_fields)

lemma enter_full:
  assumes "\<forall>k < AOI_MAX_AOI. o_type (a_slot a k) \<noteq> AOI_OBJECT_INVALID"
  shows "aoi_enter F a u = (- 1, a\<lparr>a_id := a_id a + int AOI_MAX_AOI\<rparr>)"
  using next_id_loop_full[OF assms, of F 0] by (simp add: aoi_enter_def aoi_next_id_def)

lemma enter_finds:
  assumes "0 \<le> a_id a" and "j < AOI_MAX_AOI"
    and "o_type (a_slot a (AOI_HASH_ID (a_id a + int j))) = AOI_OBJECT_INVALID"
    and "\<forall>l < j. o_type (a_slot a (AOI_HASH_ID (a_id a + int l))) \<noteq> AOI_OBJECT_INVALID"
  shows "fst (aoi_enter F a u) = a_id a + int j"
    and "a_id (snd (aoi_enter F a u)) = a_id a + int j + 1"
    and "o_type (a_slot (snd (aoi_enter F a u)) k) =
          (if k = AOI_HASH_ID (a_id a + int j) then AOI_OBJECT_RESERVE else o_type (a_slot a k))"
    and "o_id (a_slot (snd (aoi_enter F a u)) k) =
          (if k = AOI_HASH_ID (a_id a + int j) then a_id a + int j else o_id (a_slot a k))"
proof -
  let ?i = "a_id a + int j"
  let ?h = "AOI_HASH_ID ?i"
  let ?a1 = "upd_slot (a\<lparr>a_id := ?i + 1\<rparr>) ?h
       (\<lambda>_. (zero_object (f_of_int F 0))\<lparr>o_id := ?i, o_type := AOI_OBJECT_RESERVE\<rparr>)"
  have nid: "aoi_next_id F a = (?i, ?a1)"
    unfolding aoi_next_id_def using next_id_loop_finds[of a 0 j F] assms by simp
  have ne: "?i \<noteq> - 1" "- 1 \<noteq> ?i" using assms(1) by auto
  have lk: "aoi_object_lookup ?a1 ?i = Some ?h"
    using assms(1) by (simp add: aoi_object_lookup_def AOI_OBJECT_RESERVE_def AOI_OBJECT_INVALID_def)
  let ?a2 = "enter_link (enter_link ?a1 ?h 0) ?h (Suc 0)"
  have so: "same_objects ?a1 ?a2"
    by (rule same_objects_trans[OF same_objects_enter_link same_objects_enter_link])
  have res: "aoi_enter F a u = (?i,
      upd_slot (upd_slot (upd_slot ?a2 ?h (\<lambda>ob. ob\<lparr>o_n_list := new_list\<rparr>)) ?h
         (\<lambda>ob. ob\<lparr>o_o_list := new_list\<rparr>)) ?h (\<lambda>ob. ob\<lparr>o_ud := u\<rparr>))"
    using ne by (simp add: aoi_enter_def nid lk Let_def)
  show "fst (aoi_enter F a u) = ?i" by (simp add: res)
  show "a_id (snd (aoi_enter F a u)) = ?i + 1"
    by (simp add: res same_objects_fields[OF so])
  show "o_type (a_slot (snd (aoi_enter F a u)) k) =
          (if k = ?h then AOI_OBJECT_RESERVE else o_type (a_slot a k))"
    by (simp add: res same_objects_fields[OF so])
  show "o_id (a_slot (snd (aoi_enter F a u)) k) =
          (if k = ?h then ?i else o_id (a_slot a k))"
    by (simp add: res same_objects_fields[OF so])
qed

lemma pool_after_init: "pool_after 0 (aoi_init F)"
  by (simp add: pool_after_def aoi_init_def zero_object_def AOI_OBJECT_INVALID_def)

lemma pool_after_enter:
  assumes "pool_after n a" and "n < AOI_MAX_AOI"
  shows "fst (aoi_enter F a u) = int n" and "pool_after (Suc n) (snd (aoi_enter F a u))"
proof -
  have id: "a_id a = int n" using assms(1) by (simp add: pool_after_def)
  have h: "AOI_HASH_ID (a_id a + int 0) = n" using assms(2) id by (simp add: hash_small)
  have free: "o_type (a_slot a (AOI_HASH_ID (a_id a + int 0))) = AOI_OBJECT_INVALID"
    using assms(1) h by (simp add: pool_after_def)
  note r = enter_finds[of a 0, OF _ AOI_MAX_AOI_pos free, of F u]
  show "fst (aoi_enter F a u) = int n" using r(1) id by simp
  show "pool_after (Suc n) (snd (aoi_enter F a u))"
    unfolding pool_after_def using r(2-4) id h assms(1)
    by (auto simp: pool_after_def less_Suc_eq)
qed

lemma run_enters:
  assumes "pool_after n a" and "n + length uds \<le> AOI_MAX_AOI"
  shows "\<exists>a'. run F a (map Enter uds) = Some (map (\<lambda>k. RId (int k)) [n..<n + length uds], a')
           \<and> pool_after (n + length uds) a'"
  using assms
proof (induction uds arbitrary: n a)
  case Nil
  then show ?case by simp
next
  case (Cons u uds)
  have lt: "n < AOI_MAX_AOI" using Cons.prems(2) by simp
  note e = pool_after_enter[OF Cons.prems(1) lt, of F u]
  obtain a' where a': "run F (snd (aoi_enter F a u)) (map Enter uds) =
      Some (map (\<lambda>k. RId (int k)) [Suc n..<Suc n + length uds], a')"
      "pool_after (Suc n + length uds) a'"
    using Cons.IH[OF e(2)] Cons.prems(2) by auto
  have "[n..<n + length (u # uds)] = n # [Suc n..<Suc n + length uds]"
    by (subst upt_rec) simp
  then show ?case using e(1) a' by (auto simp: split_beta prod.case_eq_if)
qed

lemma leave_pool:
  assumes "aoi_object_lookup a i = Some obj"
  shows "a_id (aoi_leave F a i) = a_id a"
    and "o_type (a_slot (aoi_leave F a i) k) =
          (if k = obj then AOI_OBJECT_INVALID else o_type (a_slot a k))"
proof -
  let ?a1 = "aoi_list_erase (aoi_list_erase a 0 obj) (Suc 0) obj"
  have so: "same_objects a ?a1"
    by (rule same_objects_trans[OF same_objects_erase same_objects_erase])
  show "a_id (aoi_leave F a i) = a_id a"
    using assms by (simp add: aoi_leave_def Let_def same_objects_fields[OF so])
  show "o_type (a_slot (aoi_leave F a i) k) =
          (if k = obj then AOI_OBJECT_INVALID else o_type (a_slot a k))"
    using assms by (simp add: aoi_leave_def Let_def same_objects_fields[OF so])
qed

lemma enter_after_free:
  assumes "0 \<le> a_id a" and "k < AOI_MAX_AOI" and "o_type (a_slot a k) = AOI_OBJECT_INVALID"
  shows "0 \<le> fst (aoi_enter F a u)"
    and "aoi_object_lookup (snd (aoi_enter F a u)) (fst (aoi_enter F a u)) \<noteq> None"
proof -
  define P where "P j \<longleftrightarrow> o_type (a_slot a (AOI_HASH_ID (a_id a + int j))) = AOI_OBJECT_INVALID" for j
  define j0 where "j0 = nat ((int k - a_id a) mod int AOI_MAX_AOI)"
  have j0: "j0 < AOI_MAX_AOI"
    using AOI_MAX_AOI_pos by (simp add: j0_def nat_less_iff)
  have "(a_id a + int j0) mod int AOI_MAX_AOI = int k mod int AOI_MAX_AOI"
    using AOI_MAX_AOI_pos by (simp add: j0_def mod_add_right_eq)
  then have "AOI_HASH_ID (a_id a + int j0) = k"
    using assms(1,2) by (simp add: hash_nonneg)
  then have "P j0" using assms(3) by (simp add: P_def)
  define j where "j = (LEAST j. P j)"
  have Pj: "P j" unfolding j_def using \<open>P j0\<close> by (rule LeastI)
  have jle: "j \<le> j0" unfolding j_def using \<open>P j0\<close> by (rule Least_le)
  have least: "\<forall>l < j. \<not> P l" unfolding j_def using not_less_Least by blast
  have jlt: "j < AOI_MAX_AOI" using jle j0 by simp
  note r = enter_finds[of a j F u, OF assms(1) jlt Pj[unfolded P_def] least[unfolded P_def]]
  show "0 \<le> fst (aoi_enter F a u)" using r(1) assms(1) by simp
  show "aoi_object_lookup (snd (aoi_enter F a u)) (fst (aoi_enter F a u)) \<noteq> None"
    using r assms(1)
    by (simp add: aoi_object_lookup_def AOI_OBJECT_RESERVE_def AOI_OBJECT_INVALID_def)
qed

text \<open>
  C5. From the initial state, \<open>AOI_MAX_AOI\<close> calls of \<^verbatim>\<open>aoi_enter\<close> return the ids
  0, 1, ... (each one live afterwards), and the next call returns -1, which no lookup
  accepts as an id. After that, \<^verbatim>\<open>aoi_leave\<close> of any live id makes the next
  \<^verbatim>\<open>aoi_enter\<close> return a live id again.
\<close>

theorem c5_pool_exhaustion:
  assumes "length uds = AOI_MAX_AOI"
  shows "\<exists>a. run F (aoi_init F) (map Enter uds) =
            Some (map (\<lambda>k. RId (int k)) [0..<AOI_MAX_AOI], a)
     \<and> (\<forall>k < AOI_MAX_AOI. aoi_object_lookup a (int k) = Some k)
     \<and> aoi_object_lookup a (- 1) = None
     \<and> fst (aoi_enter F a u) = - 1
     \<and> (\<forall>i. aoi_object_lookup (snd (aoi_enter F a u)) i \<noteq> None \<longrightarrow>
          0 \<le> fst (aoi_enter F (aoi_leave F (snd (aoi_enter F a u)) i) v)
          \<and> aoi_object_lookup (snd (aoi_enter F (aoi_leave F (snd (aoi_enter F a u)) i) v))
               (fst (aoi_enter F (aoi_leave F (snd (aoi_enter F a u)) i) v)) \<noteq> None)"
proof -
  obtain a where run: "run F (aoi_init F) (map Enter uds) =
       Some (map (\<lambda>k. RId (int k)) [0..<AOI_MAX_AOI], a)"
    and pa: "pool_after AOI_MAX_AOI a"
    using run_enters[OF pool_after_init, of uds F] assms by auto
  have live: "aoi_object_lookup a (int k) = Some k" if "k < AOI_MAX_AOI" for k
    using pa that
    by (simp add: aoi_object_lookup_def pool_after_def hash_small AOI_OBJECT_RESERVE_def
        AOI_OBJECT_INVALID_def)
  have full: "\<forall>k < AOI_MAX_AOI. o_type (a_slot a k) \<noteq> AOI_OBJECT_INVALID"
    using pa by (simp add: pool_after_def AOI_OBJECT_RESERVE_def AOI_OBJECT_INVALID_def)
  have fail: "aoi_enter F a u = (- 1, a\<lparr>a_id := a_id a + int AOI_MAX_AOI\<rparr>)"
    by (rule enter_full[OF full])
  let ?b = "snd (aoi_enter F a u)"
  have after: "0 \<le> fst (aoi_enter F (aoi_leave F ?b i) v)
      \<and> aoi_object_lookup (snd (aoi_enter F (aoi_leave F ?b i) v))
               (fst (aoi_enter F (aoi_leave F ?b i) v)) \<noteq> None"
    if "aoi_object_lookup ?b i \<noteq> None" for i
  proof -
    from that obtain obj where obj: "aoi_object_lookup ?b i = Some obj" by auto
    have lt: "obj < AOI_MAX_AOI" using lookup_SomeD(1)[OF obj] hash_lt by simp
    have id: "0 \<le> a_id (aoi_leave F ?b i)"
      using leave_pool(1)[OF obj, of F] pa by (simp add: fail pool_after_def)
    have free: "o_type (a_slot (aoi_leave F ?b i) obj) = AOI_OBJECT_INVALID"
      using leave_pool(2)[OF obj, of F obj] by simp
    show ?thesis using enter_after_free[OF id lt free, of F v] by simp
  qed
  show ?thesis
    using run live fail after by (intro exI[where x = a]) (simp add: aoi_object_lookup_def)
qed

theorem c5_pool_exhaustion_witness:
  "\<exists>a. run exact_fops (aoi_init exact_fops) (map Enter (replicate AOI_MAX_AOI 0)) =
            Some (map (\<lambda>k. RId (int k)) [0..<AOI_MAX_AOI], a)
     \<and> aoi_object_lookup a 0 = Some 0
     \<and> fst (aoi_enter exact_fops a 0) = - 1
     \<and> aoi_object_lookup (snd (aoi_enter exact_fops a 0)) 0 = Some 0
     \<and> 0 \<le> fst (aoi_enter exact_fops (aoi_leave exact_fops (snd (aoi_enter exact_fops a 0)) 0) 0)"
proof -
  have len: "length (replicate AOI_MAX_AOI (0::nat)) = AOI_MAX_AOI" by simp
  obtain a where a: "run exact_fops (aoi_init exact_fops) (map Enter (replicate AOI_MAX_AOI 0)) =
            Some (map (\<lambda>k. RId (int k)) [0..<AOI_MAX_AOI], a)"
     "\<forall>k < AOI_MAX_AOI. aoi_object_lookup a (int k) = Some k"
     "fst (aoi_enter exact_fops a 0) = - 1"
     "\<forall>i. aoi_object_lookup (snd (aoi_enter exact_fops a 0)) i \<noteq> None \<longrightarrow>
          0 \<le> fst (aoi_enter exact_fops (aoi_leave exact_fops (snd (aoi_enter exact_fops a 0)) i) 0)"
    using c5_pool_exhaustion [OF len, of exact_fops 0 0] by blast
  have l0: "aoi_object_lookup a 0 = Some 0"
    using a(2) AOI_MAX_AOI_pos by (auto dest: spec[where x = 0])
  have full: "\<forall>k < AOI_MAX_AOI. o_type (a_slot a k) \<noteq> AOI_OBJECT_INVALID"
  proof (intro allI impI)
    fix k assume "k < AOI_MAX_AOI"
    then have "aoi_object_lookup a (int k) = Some k" using a(2) by simp
    from lookup_SomeD(3)[OF this] show "o_type (a_slot a k) \<noteq> AOI_OBJECT_INVALID" .
  qed
  have l1: "aoi_object_lookup (snd (aoi_enter exact_fops a 0)) 0 = Some 0"
    using l0 by (simp add: enter_full[OF full] aoi_object_lookup_def)
  then have "0 \<le> fst (aoi_enter exact_fops (aoi_leave exact_fops (snd (aoi_enter exact_fops a 0)) 0) 0)"
    using a(4) by simp
  then show ?thesis using a(1,3) l0 l1 by (intro exI[where x = a]) simp
qed

section \<open>Lists of cells\<close>

lemma hd_opt_simps [simp]:
  "hd_opt [] = None" "hd_opt (x # xs) = Some x"
  "hd_opt (as @ bs) = (if as = [] then hd_opt bs else hd_opt as)"
  by (simp_all add: hd_opt_def split: list.split)

lemma hd_opt_eq_None [simp]: "hd_opt xs = None \<longleftrightarrow> xs = []"
  by (simp add: hd_opt_def split: list.split)

lemma hd_opt_SomeD: "hd_opt xs = Some x \<Longrightarrow> x \<in> set xs \<and> xs \<noteq> [] \<and> hd xs = x"
  by (auto simp: hd_opt_def split: list.splits)

lemma hd_opt_rev_snoc [simp]: "hd_opt (rev (xs @ [x])) = Some x"
  by simp

lemma succ_in_Cons [simp]:
  "succ_in (x # xs) y = (if y = x then hd_opt xs else succ_in xs y)"
  by (cases xs) auto

lemma succ_in_notin [simp]: "y \<notin> set xs \<Longrightarrow> succ_in xs y = None"
  by (induction xs) auto

lemma succ_in_mem: "succ_in xs x = Some y \<Longrightarrow> x \<in> set xs \<and> y \<in> set xs"
  by (induction xs) (auto split: if_splits dest: hd_opt_SomeD)

lemma succ_in_append:
  "distinct as \<Longrightarrow> succ_in (as @ bs) y =
     (if y \<in> set as then (if hd_opt (rev as) = Some y then hd_opt bs else succ_in as y)
      else succ_in bs y)"
  by (induction as) (auto dest: hd_opt_SomeD)

lemma pred_in_Nil [simp]: "pred_in [] y = None"
  by (simp add: pred_in_def)

lemma pred_in_notin [simp]: "y \<notin> set xs \<Longrightarrow> pred_in xs y = None"
  by (simp add: pred_in_def)

lemma pred_in_Cons:
  "distinct xs \<Longrightarrow> pred_in (x # xs) y =
     (if y \<in> set xs then (if hd_opt xs = Some y then Some x else pred_in xs y) else None)"
  by (simp add: pred_in_def succ_in_append)

lemma pred_in_append:
  "distinct bs \<Longrightarrow> pred_in (as @ bs) y =
     (if y \<in> set bs then (if hd_opt bs = Some y then hd_opt (rev as) else pred_in bs y)
      else pred_in as y)"
  by (simp add: pred_in_def succ_in_append)

lemma pred_in_mem: "pred_in xs x = Some y \<Longrightarrow> x \<in> set xs \<and> y \<in> set xs"
  using succ_in_mem[of "rev xs" x y] by (simp add: pred_in_def)

section \<open>Pointer updates\<close>

lemma at2_set2 [simp]: "at2 (set2 v i x) j = (if (i = 0) = (j = 0) then x else at2 v j)"
  by (simp add: at2_def set2_def)

lemma nxt_set [simp]:
  "nxt (set_next a i k v) j x = (if (i = 0) = (j = 0) \<and> x = k then v else nxt a j x)"
  "nxt (set_prev a i k v) j x = nxt a j x"
  "nxt (set_head a i v) j x = nxt a j x"
  by (auto simp: nxt_def)

lemma prv_set [simp]:
  "prv (set_prev a i k v) j x = (if (i = 0) = (j = 0) \<and> x = k then v else prv a j x)"
  "prv (set_next a i k v) j x = prv a j x"
  "prv (set_head a i v) j x = prv a j x"
  by (auto simp: prv_def)

lemma pos_set [simp]:
  "pos (set_prev a i k v) j x = pos a j x"
  "pos (set_next a i k v) j x = pos a j x"
  "pos (set_head a i v) j x = pos a j x"
  by (simp_all add: pos_def)

lemma dll_D:
  assumes "dll a i xs"
  shows "distinct xs" "at2 (a_list a) i = hd_opt xs"
    "x \<in> set xs \<Longrightarrow> nxt a i x = succ_in xs x" "x \<in> set xs \<Longrightarrow> prv a i x = pred_in xs x"
  using assms by (simp_all add: dll_def)

lemma dll_mid:
  assumes "dll a i (as @ obj # bs)"
  shows "nxt a i obj = hd_opt bs" "prv a i obj = hd_opt (rev as)"
  using assms by (simp_all add: dll_def succ_in_append pred_in_append pred_in_Cons)

lemma dll_erase:
  assumes "dll a i (as @ obj # bs)"
  shows "dll (aoi_list_erase a i obj) i (as @ bs)"
proof -
  note m = dll_mid[OF assms]
  have d: "distinct (as @ obj # bs)" using assms by (simp add: dll_def)
  have hd: "at2 (a_list a) i = hd_opt (as @ obj # bs)" using assms by (simp add: dll_def)
  have pt: "nxt a i x = succ_in (as @ obj # bs) x" "prv a i x = pred_in (as @ obj # bs) x"
    if "x \<in> set (as @ obj # bs)" for x
    using assms that by (auto simp: dll_def)
  show ?thesis
  proof (cases as rule: rev_cases)
    case Nil
    show ?thesis
    proof (cases bs)
      case Nil
      with \<open>as = []\<close> show ?thesis
        using m hd by (simp add: dll_def aoi_list_erase_def)
    next
      case (Cons v bs')
      with \<open>as = []\<close> show ?thesis
        using m d hd pt
        by (simp add: dll_def aoi_list_erase_def pred_in_Cons) (auto dest: hd_opt_SomeD)
    qed
  next
    case (snoc as' u)
    show ?thesis
    proof (cases bs)
      case Nil
      with snoc show ?thesis
        using m d hd pt
        by (simp add: dll_def aoi_list_erase_def succ_in_append pred_in_append pred_in_Cons)
          (auto dest: hd_opt_SomeD)
    next
      case (Cons v bs')
      with snoc show ?thesis
        using m d hd pt
        by (simp add: dll_def aoi_list_erase_def succ_in_append pred_in_append pred_in_Cons)
          (auto dest: hd_opt_SomeD)
    qed
  qed
qed

lemma erase_cleared:
  "nxt (aoi_list_erase a i obj) i obj = None" "prv (aoi_list_erase a i obj) i obj = None"
  by (simp_all add: aoi_list_erase_def Let_def split: option.split)

lemma erase_other_axis:
  assumes "(i = 0) \<noteq> (j = 0)"
  shows "nxt (aoi_list_erase a i obj) j x = nxt a j x"
    "prv (aoi_list_erase a i obj) j x = prv a j x"
    "at2 (a_list (aoi_list_erase a i obj)) j = at2 (a_list a) j"
  using assms by (auto simp: aoi_list_erase_def Let_def split: option.split)

lemma insert_after_other_axis:
  assumes "(i = 0) \<noteq> (j = 0)"
  shows "nxt (aoi_list_insert_after a i obj q) j x = nxt a j x"
    "prv (aoi_list_insert_after a i obj q) j x = prv a j x"
    "at2 (a_list (aoi_list_insert_after a i obj q)) j = at2 (a_list a) j"
  using assms by (auto simp: aoi_list_insert_after_def Let_def split: option.split)

lemma insert_before_other_axis:
  assumes "(i = 0) \<noteq> (j = 0)"
  shows "nxt (aoi_list_insert_before a i obj q) j x = nxt a j x"
    "prv (aoi_list_insert_before a i obj q) j x = prv a j x"
    "at2 (a_list (aoi_list_insert_before a i obj q)) j = at2 (a_list a) j"
  using assms by (auto simp: aoi_list_insert_before_def Let_def split: option.split)

lemma enter_link_other_axis:
  assumes "(i = 0) \<noteq> (j = 0)"
  shows "nxt (enter_link a obj i) j x = nxt a j x"
    "prv (enter_link a obj i) j x = prv a j x"
    "at2 (a_list (enter_link a obj i)) j = at2 (a_list a) j"
  using assms by (auto simp: enter_link_def Let_def split: option.split)

lemma dll_insert_after:
  assumes "dll a i (cs @ p # ds)" and "obj \<notin> set (cs @ p # ds)"
  shows "dll (aoi_list_insert_after a i obj p) i (cs @ p # obj # ds)"
proof -
  note m = dll_mid[OF assms(1)]
  have d: "distinct (cs @ p # ds)" using assms by (simp add: dll_def)
  have hd: "at2 (a_list a) i = hd_opt (cs @ p # ds)" using assms by (simp add: dll_def)
  have pt: "nxt a i x = succ_in (cs @ p # ds) x" "prv a i x = pred_in (cs @ p # ds) x"
    if "x \<in> set (cs @ p # ds)" for x
    using assms that by (auto simp: dll_def)
  have ne: "obj \<noteq> p" using assms(2) by auto
  show ?thesis
  proof (cases ds)
    case Nil
    then show ?thesis
      using m d hd pt ne assms(2)
      by (simp add: dll_def aoi_list_insert_after_def succ_in_append pred_in_append pred_in_Cons)
        (auto dest: hd_opt_SomeD)
  next
    case (Cons r ds')
    then show ?thesis
      using m d hd pt ne assms(2)
      by (simp add: dll_def aoi_list_insert_after_def succ_in_append pred_in_append pred_in_Cons)
        (auto dest: hd_opt_SomeD)
  qed
qed

lemma dll_insert_before:
  assumes "dll a i (cs @ p # ds)" and "obj \<notin> set (cs @ p # ds)"
  shows "dll (aoi_list_insert_before a i obj p) i (cs @ obj # p # ds)"
proof -
  note m = dll_mid[OF assms(1)]
  have d: "distinct (cs @ p # ds)" using assms by (simp add: dll_def)
  have hd: "at2 (a_list a) i = hd_opt (cs @ p # ds)" using assms by (simp add: dll_def)
  have pt: "nxt a i x = succ_in (cs @ p # ds) x" "prv a i x = pred_in (cs @ p # ds) x"
    if "x \<in> set (cs @ p # ds)" for x
    using assms that by (auto simp: dll_def)
  have ne: "obj \<noteq> p" using assms(2) by auto
  show ?thesis
  proof (cases cs rule: rev_cases)
    case Nil
    then show ?thesis
      using m d hd pt ne assms(2)
      by (simp add: dll_def aoi_list_insert_before_def succ_in_append pred_in_append pred_in_Cons)
  next
    case (snoc cs' u)
    then show ?thesis
      using m d hd pt ne assms(2)
      by (simp add: dll_def aoi_list_insert_before_def succ_in_append pred_in_append pred_in_Cons)
        (auto dest: hd_opt_SomeD)
  qed
qed

lemma dll_enter_link:
  assumes "dll a i xs" and "obj \<notin> set xs" and "prv a i obj = None"
  shows "dll (enter_link a obj i) i (obj # xs)"
proof -
  have d: "distinct xs" using assms by (simp add: dll_def)
  have hd: "at2 (a_list a) i = hd_opt xs" using assms by (simp add: dll_def)
  have pt: "nxt a i x = succ_in xs x" "prv a i x = pred_in xs x"
    if "x \<in> set xs" for x
    using assms that by (auto simp: dll_def)
  show ?thesis
  proof (cases xs)
    case Nil
    then show ?thesis
      using hd assms(3) by (simp add: dll_def enter_link_def pred_in_Cons)
  next
    case (Cons h xs')
    then show ?thesis
      using d hd pt assms(2,3)
      by (simp add: dll_def enter_link_def pred_in_Cons)
  qed
qed

section \<open>The walks of the reordering\<close>

lemma walk_next_dll:
  assumes "dll a i (as @ q # bs)"
  shows "\<exists>cs ds. bs = cs @ ds \<and> walk_next a i obj q = Some (last (q # cs))
     \<and> (\<forall>c \<in> set cs. pos a i c \<le> pos a i obj)
     \<and> (ds = [] \<or> pos a i obj < pos a i (hd ds))"
  using assms
proof (induction bs arbitrary: as q)
  case Nil
  have "nxt a i q = None" using dll_mid(1)[OF Nil] by simp
  then show ?case by (subst walk_next.simps) simp
next
  case (Cons r bs)
  have n: "nxt a i q = Some r" using dll_mid(1)[OF Cons.prems] by simp
  show ?case
  proof (cases "pos a i obj < pos a i r")
    case True
    have "walk_next a i obj q = Some q"
      using n True by (subst walk_next.simps) simp
    then show ?thesis using True
      by (intro exI[where x = "[]"] exI[where x = "r # bs"]) simp
  next
    case False
    have "dll a i ((as @ [q]) @ r # bs)" using Cons.prems by simp
    from Cons.IH[OF this] obtain cs ds where
      IH: "bs = cs @ ds" "walk_next a i obj r = Some (last (r # cs))"
        "\<forall>c \<in> set cs. pos a i c \<le> pos a i obj" "ds = [] \<or> pos a i obj < pos a i (hd ds)"
      by blast
    have "walk_next a i obj q = Some (last (r # cs))"
      using n False IH(2) by (subst walk_next.simps) simp
    then show ?thesis using IH False
      by (intro exI[where x = "r # cs"] exI[where x = ds]) simp
  qed
qed

lemma walk_prev_dll:
  assumes "dll a i (as @ q # bs)"
  shows "\<exists>cs ds. as = cs @ ds \<and> walk_prev a i obj q = Some (hd (ds @ [q]))
     \<and> (\<forall>c \<in> set ds. pos a i obj \<le> pos a i c)
     \<and> (cs = [] \<or> pos a i (last cs) < pos a i obj)"
  using assms
proof (induction as arbitrary: bs q rule: rev_induct)
  case Nil
  have "prv a i q = None" using dll_mid(2)[OF Nil] by simp
  then show ?case by (subst walk_prev.simps) simp
next
  case (snoc r as)
  have n: "prv a i q = Some r" using dll_mid(2)[OF snoc.prems] by simp
  show ?case
  proof (cases "pos a i r < pos a i obj")
    case True
    have "walk_prev a i obj q = Some q"
      using n True by (subst walk_prev.simps) simp
    then show ?thesis using True
      by (intro exI[where x = "as @ [r]"] exI[where x = "[]"]) simp
  next
    case False
    have "dll a i (as @ r # q # bs)" using snoc.prems by simp
    from snoc.IH[OF this] obtain cs ds where
      IH: "as = cs @ ds" "walk_prev a i obj r = Some (hd (ds @ [r]))"
        "\<forall>c \<in> set ds. pos a i obj \<le> pos a i c" "cs = [] \<or> pos a i (last cs) < pos a i obj"
      by blast
    have "walk_prev a i obj q = Some (hd (ds @ [r]))"
      using n False IH(2) by (subst walk_prev.simps) simp
    moreover have "hd (ds @ [r]) = hd ((ds @ [r]) @ [q])" by (cases ds) simp_all
    ultimately show ?thesis using IH False
      by (intro exI[where x = cs] exI[where x = "ds @ [r]"]) simp
  qed
qed

section \<open>Reordering one axis\<close>

lemma dll_cong:
  assumes "dll a i xs" and "at2 (a_list b) i = at2 (a_list a) i"
    and "\<And>x. nxt b i x = nxt a i x" and "\<And>x. prv b i x = prv a i x"
  shows "dll b i xs"
  using assms by (simp add: dll_def)

lemma relinked_refl [simp]: "relinked i a a"
  by (simp add: relinked_def)

lemma relinked_trans: "relinked i a b \<Longrightarrow> relinked i b c \<Longrightarrow> relinked i a c"
  by (auto simp: relinked_def intro: same_objects_trans)

lemma relinked_erase: "relinked i a (aoi_list_erase a i obj)"
  by (simp add: relinked_def same_objects_erase erase_other_axis)

lemma relinked_insert_after: "relinked i a (aoi_list_insert_after a i obj q)"
  by (simp add: relinked_def same_objects_insert_after insert_after_other_axis)

lemma relinked_insert_before: "relinked i a (aoi_list_insert_before a i obj q)"
  by (simp add: relinked_def same_objects_insert_before insert_before_other_axis)

lemma update_axis_zero: "at2 d i = 0 \<Longrightarrow> update_axis a obj d i = Some a"
  by (simp add: update_axis_def)

lemma update_axis_pos:
  assumes "dll a i (as @ obj # bs)" and "0 < at2 d i"
  shows "\<exists>cs ds a'. bs = cs @ ds \<and> (\<forall>c \<in> set cs. pos a i c \<le> pos a i obj)
     \<and> (ds = [] \<or> pos a i obj < pos a i (hd ds))
     \<and> update_axis a obj d i = Some a' \<and> dll a' i (as @ cs @ obj # ds) \<and> relinked i a a'"
proof -
  from walk_next_dll[OF assms(1), of obj] obtain cs ds where
    w: "bs = cs @ ds" "walk_next a i obj obj = Some (last (obj # cs))"
      "\<forall>c \<in> set cs. pos a i c \<le> pos a i obj" "ds = [] \<or> pos a i obj < pos a i (hd ds)"
    by blast
  have d: "distinct (as @ obj # bs)" using assms(1) by (simp add: dll_def)
  show ?thesis
  proof (cases cs rule: rev_cases)
    case Nil
    then have "update_axis a obj d i = Some a"
      using w(2) assms(2) by (simp add: update_axis_def)
    then show ?thesis using w Nil assms(1)
      by (intro exI[where x = "[]"] exI[where x = ds] exI[where x = a]) simp
  next
    case (snoc cs' p)
    have ne: "p \<noteq> obj" using d w(1) snoc by auto
    let ?a1 = "aoi_list_erase a i obj"
    let ?a2 = "aoi_list_insert_after ?a1 i obj p"
    have u: "update_axis a obj d i = Some ?a2"
      using w(2) assms(2) snoc ne by (simp add: update_axis_def)
    have "dll ?a1 i (as @ bs)" by (rule dll_erase[OF assms(1)])
    then have e: "dll ?a1 i ((as @ cs') @ p # ds)" using w(1) snoc by simp
    have "obj \<notin> set ((as @ cs') @ p # ds)" using d w(1) snoc by auto
    from dll_insert_after[OF e this] have "dll ?a2 i (as @ cs @ obj # ds)"
      using snoc by simp
    moreover have "relinked i a ?a2"
      by (rule relinked_trans[OF relinked_erase relinked_insert_after])
    ultimately show ?thesis using w u
      by (intro exI[where x = cs] exI[where x = ds] exI[where x = ?a2]) simp
  qed
qed

lemma update_axis_neg:
  assumes "dll a i (as @ obj # bs)" and "\<not> 0 < at2 d i" and "at2 d i < 0"
  shows "\<exists>cs ds a'. as = cs @ ds \<and> (\<forall>c \<in> set ds. pos a i obj \<le> pos a i c)
     \<and> (cs = [] \<or> pos a i (last cs) < pos a i obj)
     \<and> update_axis a obj d i = Some a' \<and> dll a' i (cs @ obj # ds @ bs) \<and> relinked i a a'"
proof -
  from walk_prev_dll[OF assms(1), of obj] obtain cs ds where
    w: "as = cs @ ds" "walk_prev a i obj obj = Some (hd (ds @ [obj]))"
      "\<forall>c \<in> set ds. pos a i obj \<le> pos a i c" "cs = [] \<or> pos a i (last cs) < pos a i obj"
    by blast
  have d: "distinct (as @ obj # bs)" using assms(1) by (simp add: dll_def)
  show ?thesis
  proof (cases ds)
    case Nil
    then have "update_axis a obj d i = Some a"
      using w(2) assms(2,3) by (simp add: update_axis_def)
    then show ?thesis using w Nil assms(1)
      by (intro exI[where x = cs] exI[where x = "[]"] exI[where x = a]) simp
  next
    case (Cons p ds')
    have ne: "p \<noteq> obj" using d w(1) Cons by auto
    let ?a1 = "aoi_list_erase a i obj"
    let ?a2 = "aoi_list_insert_before ?a1 i obj p"
    have u: "update_axis a obj d i = Some ?a2"
      using w(2) assms(2,3) Cons ne by (simp add: update_axis_def)
    have "dll ?a1 i (as @ bs)" by (rule dll_erase[OF assms(1)])
    then have e: "dll ?a1 i (cs @ p # (ds' @ bs))" using w(1) Cons by simp
    have "obj \<notin> set (cs @ p # (ds' @ bs))" using d w(1) Cons by auto
    from dll_insert_before[OF e this] have "dll ?a2 i (cs @ obj # ds @ bs)"
      using Cons by simp
    moreover have "relinked i a ?a2"
      by (rule relinked_trans[OF relinked_erase relinked_insert_before])
    ultimately show ?thesis using w u
      by (intro exI[where x = cs] exI[where x = ds] exI[where x = ?a2]) simp
  qed
qed

section \<open>The invariant is kept\<close>

lemma live_same_objects: "same_objects a b \<Longrightarrow> live b k = live a k"
  by (simp add: live_def same_objects_fields)

lemma wf_D:
  assumes "aoi_wf a"
  shows "0 \<le> a_id a"
    "live a k \<Longrightarrow> 0 \<le> o_id (a_slot a k)"
    "live a k \<Longrightarrow> o_id (a_slot a k) < a_id a"
    "live a k \<Longrightarrow> AOI_HASH_ID (o_id (a_slot a k)) = k"
    "\<exists>xs. dll a 0 xs \<and> set xs = {k. live a k}"
    "\<exists>ys. dll a (Suc 0) ys \<and> set ys = {k. live a k}"
  using assms by (simp_all add: aoi_wf_def)

lemma wf_axis:
  assumes "aoi_wf a"
  shows "\<exists>xs. dll a i xs \<and> set xs = {k. live a k}"
proof (cases "i = 0")
  case True
  then show ?thesis using wf_D(5)[OF assms] by simp
next
  case False
  obtain ys where ys: "dll a (Suc 0) ys" "set ys = {k. live a k}"
    using wf_D(6)[OF assms] by blast
  have "dll a i ys" using ys(1) False by (simp add: dll_def nxt_def prv_def at2_def)
  then show ?thesis using ys(2) by blast
qed

lemma lookup_live: "aoi_object_lookup a i = Some obj \<Longrightarrow> live a obj"
  by (auto simp: live_def dest: lookup_SomeD)

lemma wf_lookup_live:
  assumes "aoi_wf a" and "live a k"
  shows "aoi_object_lookup a (o_id (a_slot a k)) = Some k"
  using wf_D(2,4)[OF assms] assms(2) by (simp add: aoi_object_lookup_def live_def)

lemma wf_relinked:
  assumes "aoi_wf a" and "relinked i a b" and "dll b i zs" and "set zs = {k. live a k}"
  shows "aoi_wf b"
proof -
  have so: "same_objects a b" using assms(2) by (simp add: relinked_def)
  have lv: "live b k = live a k" for k by (rule live_same_objects[OF so])
  have other: "\<exists>ys. dll b j ys \<and> set ys = {k. live b k}" if "(i = 0) \<noteq> (j = 0)" for j
  proof -
    obtain ys where ys: "dll a j ys" "set ys = {k. live a k}"
      using wf_axis[OF assms(1)] by blast
    have "dll b j ys"
      using assms(2) that by (intro dll_cong[OF ys(1)]) (simp_all add: relinked_def)
    then show ?thesis using ys(2) lv by auto
  qed
  have this_axis: "\<exists>ys. dll b j ys \<and> set ys = {k. live b k}" if "(i = 0) = (j = 0)" for j
  proof -
    have "dll b j zs" using assms(3) that by (simp add: dll_def nxt_def prv_def at2_def)
    then show ?thesis using assms(4) lv by auto
  qed
  have "\<exists>ys. dll b j ys \<and> set ys = {k. live b k}" for j
    using other[of j] this_axis[of j] by blast
  then show ?thesis
    using wf_D(1-4)[OF assms(1)] lv
    by (simp add: aoi_wf_def same_objects_fields[OF so])
qed

lemma update_axis_wf:
  assumes "aoi_wf a" and "live a obj"
  shows "\<exists>a'. update_axis a obj d i = Some a' \<and> aoi_wf a' \<and> relinked i a a'"
proof -
  obtain xs where xs: "dll a i xs" "set xs = {k. live a k}"
    using wf_axis[OF assms(1)] by blast
  then have "obj \<in> set xs" using assms(2) by simp
  then obtain as bs where sp: "xs = as @ obj # bs" by (auto dest: split_list)
  have dl: "dll a i (as @ obj # bs)" using xs(1) sp by simp
  consider "0 < at2 d i" | "\<not> 0 < at2 d i" "at2 d i < 0" | "at2 d i = 0" by linarith
  then show ?thesis
  proof cases
    case 1
    from update_axis_pos[OF dl 1] obtain cs ds a' where
      r: "bs = cs @ ds" "update_axis a obj d i = Some a'" "dll a' i (as @ cs @ obj # ds)"
        "relinked i a a'" by blast
    have "set (as @ cs @ obj # ds) = {k. live a k}" using xs(2) sp r(1) by auto
    from wf_relinked[OF assms(1) r(4) r(3) this] show ?thesis using r by blast
  next
    case 2
    from update_axis_neg[OF dl 2] obtain cs ds a' where
      r: "as = cs @ ds" "update_axis a obj d i = Some a'" "dll a' i (cs @ obj # ds @ bs)"
        "relinked i a a'" by blast
    have "set (cs @ obj # ds @ bs) = {k. live a k}" using xs(2) sp r(1) by auto
    from wf_relinked[OF assms(1) r(4) r(3) this] show ?thesis using r by blast
  next
    case 3
    then show ?thesis using assms(1) by (simp add: update_axis_zero)
  qed
qed

lemma relinked_same_objects: "relinked i a b \<Longrightarrow> same_objects a b"
  by (simp add: relinked_def)

lemma update_list_wf:
  assumes "aoi_wf a" and "live a obj"
  shows "\<exists>a'. aoi_update_list a obj d = Some a' \<and> aoi_wf a' \<and> same_objects a a'"
proof -
  obtain a1 where a1: "update_axis a obj d 0 = Some a1" "aoi_wf a1" "relinked 0 a a1"
    using update_axis_wf[OF assms] by blast
  have "live a1 obj" using assms(2) live_same_objects[OF relinked_same_objects[OF a1(3)]] by simp
  from update_axis_wf[OF a1(2) this] obtain a2 where
    a2: "update_axis a1 obj d 1 = Some a2" "aoi_wf a2" "relinked 1 a1 a2" by blast
  have "same_objects a a2"
    using a1(3) a2(3) by (auto intro: same_objects_trans relinked_same_objects)
  then show ?thesis using a1(1) a2(1,2) by (simp add: aoi_update_list_def)
qed

text \<open>A slot update that keeps the type, the id and the links keeps the invariant.\<close>

lemma wf_upd_slot:
  assumes "aoi_wf a"
    and "o_type (f (a_slot a k)) = o_type (a_slot a k)"
    and "o_id (f (a_slot a k)) = o_id (a_slot a k)"
    and "o_prev (f (a_slot a k)) = o_prev (a_slot a k)"
    and "o_next (f (a_slot a k)) = o_next (a_slot a k)"
  shows "aoi_wf (upd_slot a k f)"
proof -
  let ?b = "upd_slot a k f"
  have lv: "live ?b x = live a x" for x using assms(2) by (simp add: live_def)
  have id: "o_id (a_slot ?b x) = o_id (a_slot a x)" for x using assms(3) by simp
  have dl: "dll ?b i xs = dll a i xs" for i xs
    using assms(4,5) by (auto simp: dll_def nxt_def prv_def)
  show ?thesis
    using assms(1) unfolding aoi_wf_def lv id dl by simp
qed

lemma wf_elist: "aoi_wf a \<Longrightarrow> aoi_wf (a\<lparr>a_elist := el\<rparr>)"
  by (simp add: aoi_wf_def live_def dll_def nxt_def prv_def)

lemma move_wf: "aoi_wf a \<Longrightarrow> aoi_wf (aoi_move F a i x y)"
  by (auto simp: aoi_move_def Let_def intro!: wf_upd_slot split: option.split)

lemma speed_wf: "aoi_wf a \<Longrightarrow> aoi_wf (aoi_speed F a i v)"
  by (auto simp: aoi_speed_def Let_def intro!: wf_upd_slot move_wf split: option.split)

lemma trigger_wf: "aoi_wf a \<Longrightarrow> aoi_trigger a i enter_r leave_r = Some (r, a') \<Longrightarrow> aoi_wf a'"
  by (auto simp: aoi_trigger_def Let_def intro!: wf_upd_slot wf_elist split: option.splits prod.splits)

lemma live_upd_slot:
  "o_type (f (a_slot a k)) = o_type (a_slot a k) \<Longrightarrow> live (upd_slot a k f) x = live a x"
  by (simp add: live_def)

lemma locate_wf:
  assumes "aoi_wf a"
  shows "\<exists>a'. aoi_locate a i x y = Some a' \<and> aoi_wf a'"
proof (cases "aoi_object_lookup a i")
  case None
  then show ?thesis using assms by (simp add: aoi_locate_def)
next
  case (Some obj)
  let ?a1 = "upd_slot a obj (\<lambda>ob. ob\<lparr>o_p := set2 (o_p ob) 0 x\<rparr>)"
  let ?a2 = "upd_slot ?a1 obj (\<lambda>ob. ob\<lparr>o_p := set2 (o_p ob) 1 y\<rparr>)"
  have w: "aoi_wf ?a2" using assms by (intro wf_upd_slot) simp_all
  have l: "live ?a2 obj" using lookup_live[OF Some] by (simp add: live_def)
  from update_list_wf[OF w l] show ?thesis
    using Some by (simp add: aoi_locate_def Let_def) blast
qed

lemma object_update_wf:
  assumes "aoi_wf a" and "live a obj"
  shows "\<exists>a'. aoi_object_update F a obj tick = Some a' \<and> aoi_wf a'"
proof -
  have key: "\<exists>a'. aoi_update_list b obj d = Some a' \<and> aoi_wf a'"
    if "aoi_wf b" "live b obj" for b :: "'a aoi" and d
    using update_list_wf[OF that] by blast
  show ?thesis
    unfolding aoi_object_update_def Let_def using assms
    by (intro key) (auto intro!: wf_upd_slot simp: live_def)
qed

lemma update_wf:
  assumes "aoi_wf a"
  shows "\<exists>a'. aoi_update F a i tick = Some a' \<and> aoi_wf a'"
  using assms object_update_wf[OF assms lookup_live]
  by (auto simp: aoi_update_def split: option.split)

lemma dll_frame:
  assumes "dll a i xs" and "at2 (a_list b) i = at2 (a_list a) i"
    and "\<And>x. x \<in> set xs \<Longrightarrow> nxt b i x = nxt a i x \<and> prv b i x = prv a i x"
  shows "dll b i xs"
  using assms by (simp add: dll_def)

lemma free_slot_offset:
  assumes "0 \<le> a_id a" and "k < AOI_MAX_AOI" and "o_type (a_slot a k) = AOI_OBJECT_INVALID"
  shows "\<exists>j < AOI_MAX_AOI.
     o_type (a_slot a (AOI_HASH_ID (a_id a + int j))) = AOI_OBJECT_INVALID \<and>
     (\<forall>l < j. o_type (a_slot a (AOI_HASH_ID (a_id a + int l))) \<noteq> AOI_OBJECT_INVALID)"
proof -
  define P where "P j \<longleftrightarrow> o_type (a_slot a (AOI_HASH_ID (a_id a + int j))) = AOI_OBJECT_INVALID" for j
  define j0 where "j0 = nat ((int k - a_id a) mod int AOI_MAX_AOI)"
  have j0: "j0 < AOI_MAX_AOI"
    using AOI_MAX_AOI_pos by (simp add: j0_def nat_less_iff)
  have "(a_id a + int j0) mod int AOI_MAX_AOI = int k mod int AOI_MAX_AOI"
    using AOI_MAX_AOI_pos by (simp add: j0_def mod_add_right_eq)
  then have "AOI_HASH_ID (a_id a + int j0) = k"
    using assms(1,2) by (simp add: hash_nonneg)
  then have "P j0" using assms(3) by (simp add: P_def)
  define j where "j = (LEAST j. P j)"
  have Pj: "P j" unfolding j_def using \<open>P j0\<close> by (rule LeastI)
  have jle: "j \<le> j0" unfolding j_def using \<open>P j0\<close> by (rule Least_le)
  have least: "\<forall>l < j. \<not> P l" unfolding j_def using not_less_Least by blast
  have jlt: "j < AOI_MAX_AOI" using jle j0 by simp
  show ?thesis using jlt Pj least unfolding P_def by blast
qed

text \<open>The state \<^verbatim>\<open>aoi_enter\<close> returns when the allocator finds the free slot at offset
  \<open>j\<close>.\<close>

lemma enter_state:
  assumes "0 \<le> a_id a" and "j < AOI_MAX_AOI"
    and "o_type (a_slot a (AOI_HASH_ID (a_id a + int j))) = AOI_OBJECT_INVALID"
    and "\<forall>l < j. o_type (a_slot a (AOI_HASH_ID (a_id a + int l))) \<noteq> AOI_OBJECT_INVALID"
  shows "aoi_enter F a u = (a_id a + int j,
      upd_slot (upd_slot (upd_slot
        (enter_link (enter_link
           (upd_slot (a\<lparr>a_id := a_id a + int j + 1\<rparr>) (AOI_HASH_ID (a_id a + int j))
              (\<lambda>_. (zero_object (f_of_int F 0))\<lparr>o_id := a_id a + int j,
                 o_type := AOI_OBJECT_RESERVE\<rparr>))
           (AOI_HASH_ID (a_id a + int j)) 0) (AOI_HASH_ID (a_id a + int j)) (Suc 0))
        (AOI_HASH_ID (a_id a + int j)) (\<lambda>ob. ob\<lparr>o_n_list := new_list\<rparr>))
        (AOI_HASH_ID (a_id a + int j)) (\<lambda>ob. ob\<lparr>o_o_list := new_list\<rparr>))
        (AOI_HASH_ID (a_id a + int j)) (\<lambda>ob. ob\<lparr>o_ud := u\<rparr>))"
proof -
  let ?i = "a_id a + int j"
  let ?h = "AOI_HASH_ID ?i"
  let ?a1 = "upd_slot (a\<lparr>a_id := ?i + 1\<rparr>) ?h
       (\<lambda>_. (zero_object (f_of_int F 0))\<lparr>o_id := ?i, o_type := AOI_OBJECT_RESERVE\<rparr>)"
  have nid: "aoi_next_id F a = (?i, ?a1)"
    unfolding aoi_next_id_def using next_id_loop_finds[of a 0 j F] assms by simp
  have ne: "?i \<noteq> - 1" "- 1 \<noteq> ?i" using assms(1) by auto
  have lk: "aoi_object_lookup ?a1 ?i = Some ?h"
    using assms(1) by (simp add: aoi_object_lookup_def AOI_OBJECT_RESERVE_def AOI_OBJECT_INVALID_def)
  show ?thesis using ne by (simp add: aoi_enter_def nid lk Let_def)
qed

lemma enter_wf:
  assumes "aoi_wf a"
  shows "aoi_wf (snd (aoi_enter F a u))"
proof (cases "\<forall>k < AOI_MAX_AOI. o_type (a_slot a k) \<noteq> AOI_OBJECT_INVALID")
  case True
  have "aoi_wf (a\<lparr>a_id := a_id a + int AOI_MAX_AOI\<rparr>)"
    using assms unfolding aoi_wf_def
    by (auto simp: live_def dll_def nxt_def prv_def)
  then show ?thesis by (simp add: enter_full[OF True])
next
  case False
  then obtain k where k: "k < AOI_MAX_AOI" "o_type (a_slot a k) = AOI_OBJECT_INVALID" by blast
  from free_slot_offset[OF wf_D(1)[OF assms] k] obtain j where
    j: "j < AOI_MAX_AOI"
      "o_type (a_slot a (AOI_HASH_ID (a_id a + int j))) = AOI_OBJECT_INVALID"
      "\<forall>l < j. o_type (a_slot a (AOI_HASH_ID (a_id a + int l))) \<noteq> AOI_OBJECT_INVALID"
    by blast
  let ?i = "a_id a + int j"
  let ?h = "AOI_HASH_ID ?i"
  let ?a1 = "upd_slot (a\<lparr>a_id := ?i + 1\<rparr>) ?h
       (\<lambda>_. (zero_object (f_of_int F 0))\<lparr>o_id := ?i, o_type := AOI_OBJECT_RESERVE\<rparr>)"
  let ?a2 = "enter_link ?a1 ?h 0"
  let ?a3 = "enter_link ?a2 ?h (Suc 0)"
  have nl: "\<not> live a ?h" using j(2) by (simp add: live_def)
  obtain xs where xs: "dll a 0 xs" "set xs = {k. live a k}" using wf_D(5)[OF assms] by blast
  obtain ys where ys: "dll a (Suc 0) ys" "set ys = {k. live a k}" using wf_D(6)[OF assms] by blast
  have hx: "?h \<notin> set xs" and hy: "?h \<notin> set ys" using nl xs(2) ys(2) by auto
  have x1: "dll ?a1 0 xs"
    using hx by (intro dll_frame[OF xs(1)]) (auto simp: nxt_def prv_def)
  have y1: "dll ?a1 (Suc 0) ys"
    using hy by (intro dll_frame[OF ys(1)]) (auto simp: nxt_def prv_def)
  have p1: "prv ?a1 i ?h = None" for i by (simp add: prv_def zero_object_def at2_def)
  have x2: "dll ?a2 0 (?h # xs)" by (rule dll_enter_link[OF x1 hx p1])
  have y2: "dll ?a2 (Suc 0) ys"
    by (intro dll_frame[OF y1]) (simp_all add: enter_link_other_axis)
  have p2: "prv ?a2 (Suc 0) ?h = None" by (simp add: enter_link_other_axis p1)
  have y3: "dll ?a3 (Suc 0) (?h # ys)" by (rule dll_enter_link[OF y2 hy p2])
  have x3: "dll ?a3 0 (?h # xs)"
    by (intro dll_frame[OF x2]) (simp_all add: enter_link_other_axis)
  have so: "same_objects ?a1 ?a3"
    by (rule same_objects_trans[OF same_objects_enter_link same_objects_enter_link])
  have "live ?a3 x \<longleftrightarrow> live ?a1 x" for x
    by (simp only: live_def same_objects_fields[OF so])
  moreover have "live ?a1 x \<longleftrightarrow> x = ?h \<or> live a x" for x
    by (simp add: live_def AOI_OBJECT_RESERVE_def AOI_OBJECT_INVALID_def)
  ultimately have lv: "live ?a3 x \<longleftrightarrow> x = ?h \<or> live a x" for x
    by simp
  have w3: "aoi_wf ?a3"
    unfolding aoi_wf_def
  proof (intro conjI allI impI)
    show "0 \<le> a_id ?a3" using wf_D(1)[OF assms] by (simp add: same_objects_fields[OF so])
    show "\<exists>xs. dll ?a3 0 xs \<and> set xs = {k. live ?a3 k}"
      using x3 xs(2) lv by (intro exI[where x = "?h # xs"]) auto
    show "\<exists>ys. dll ?a3 1 ys \<and> set ys = {k. live ?a3 k}"
      using y3 ys(2) lv by (intro exI[where x = "?h # ys"]) auto
  next
    fix x assume "live ?a3 x"
    then consider "x = ?h" | "x \<noteq> ?h" "live a x" using lv by blast
    then have "0 \<le> o_id (a_slot ?a3 x) \<and> o_id (a_slot ?a3 x) < a_id ?a3 \<and>
        AOI_HASH_ID (o_id (a_slot ?a3 x)) = x"
    proof cases
      case 1
      then show ?thesis using wf_D(1)[OF assms] by (simp add: same_objects_fields[OF so])
    next
      case 2
      then show ?thesis using wf_D(2-4)[OF assms 2(2)]
        by (simp add: same_objects_fields[OF so])
    qed
    then show "0 \<le> o_id (a_slot ?a3 x)" "o_id (a_slot ?a3 x) < a_id ?a3"
      "AOI_HASH_ID (o_id (a_slot ?a3 x)) = x" by simp_all
  qed
  have "aoi_wf (upd_slot (upd_slot (upd_slot ?a3 ?h (\<lambda>ob. ob\<lparr>o_n_list := new_list\<rparr>))
        ?h (\<lambda>ob. ob\<lparr>o_o_list := new_list\<rparr>)) ?h (\<lambda>ob. ob\<lparr>o_ud := u\<rparr>))"
    by (intro wf_upd_slot w3) simp_all
  then show ?thesis
    by (simp add: enter_state[OF wf_D(1)[OF assms] j])
qed

lemma leave_wf:
  assumes "aoi_wf a"
  shows "aoi_wf (aoi_leave F a i)"
proof (cases "aoi_object_lookup a i")
  case None
  then show ?thesis using assms by (simp add: aoi_leave_def)
next
  case (Some obj)
  have lo: "live a obj" by (rule lookup_live[OF Some])
  obtain xs where xs: "dll a 0 xs" "set xs = {k. live a k}" using wf_D(5)[OF assms] by blast
  obtain ys where ys: "dll a (Suc 0) ys" "set ys = {k. live a k}" using wf_D(6)[OF assms] by blast
  have "obj \<in> set xs" "obj \<in> set ys" using lo xs(2) ys(2) by simp_all
  then obtain as bs cs ds where sx: "xs = as @ obj # bs" and sy: "ys = cs @ obj # ds"
    by (meson split_list)
  let ?a1 = "aoi_list_erase a 0 obj"
  let ?a2 = "aoi_list_erase ?a1 (Suc 0) obj"
  let ?a3 = "upd_slot ?a2 obj (\<lambda>_. zero_object (f_of_int F 0))"
  let ?a4 = "upd_slot ?a3 obj (\<lambda>ob. ob\<lparr>o_type := AOI_OBJECT_INVALID\<rparr>)"
  have x1: "dll ?a1 0 (as @ bs)" using dll_erase[of a 0 as obj bs] xs(1) sx by simp
  have y1: "dll ?a1 (Suc 0) ys"
    by (intro dll_frame[OF ys(1)]) (simp_all add: erase_other_axis)
  have y2: "dll ?a2 (Suc 0) (cs @ ds)" using dll_erase[of ?a1 "Suc 0" cs obj ds] y1 sy by simp
  have x2: "dll ?a2 0 (as @ bs)"
    by (intro dll_frame[OF x1]) (simp_all add: erase_other_axis)
  have dx: "distinct xs" and dy: "distinct ys" using xs(1) ys(1) by (simp_all add: dll_def)
  have ox: "obj \<notin> set (as @ bs)" using dx sx by auto
  have oy: "obj \<notin> set (cs @ ds)" using dy sy by auto
  have x4: "dll ?a4 0 (as @ bs)"
    using ox by (intro dll_frame[OF x2]) (auto simp: nxt_def prv_def)
  have y4: "dll ?a4 (Suc 0) (cs @ ds)"
    using oy by (intro dll_frame[OF y2]) (auto simp: nxt_def prv_def)
  have so: "same_objects a ?a2"
    by (rule same_objects_trans[OF same_objects_erase same_objects_erase])
  have lv: "live ?a4 x \<longleftrightarrow> x \<noteq> obj \<and> live a x" for x
    by (simp add: live_def same_objects_fields[OF so])
  have "aoi_wf ?a4"
    unfolding aoi_wf_def
  proof (intro conjI allI impI)
    show "0 \<le> a_id ?a4" using wf_D(1)[OF assms] by (simp add: same_objects_fields[OF so])
    show "\<exists>xs. dll ?a4 0 xs \<and> set xs = {k. live ?a4 k}"
      using x4 xs(2) sx dx lv by (intro exI[where x = "as @ bs"]) auto
    show "\<exists>ys. dll ?a4 1 ys \<and> set ys = {k. live ?a4 k}"
      using y4 ys(2) sy dy lv by (intro exI[where x = "cs @ ds"]) auto
  next
    fix x assume "live ?a4 x"
    then have x: "x \<noteq> obj" "live a x" using lv by auto
    show "0 \<le> o_id (a_slot ?a4 x)" "o_id (a_slot ?a4 x) < a_id ?a4"
      "AOI_HASH_ID (o_id (a_slot ?a4 x)) = x"
      using x wf_D(2-4)[OF assms x(2)] by (simp_all add: same_objects_fields[OF so])
  qed
  then show ?thesis using Some by (simp add: aoi_leave_def Let_def)
qed

lemma init_wf: "aoi_wf (aoi_init F)"
  by (simp add: aoi_wf_def aoi_init_def live_def zero_object_def AOI_OBJECT_INVALID_def dll_def at2_def)

lemma exec_wf:
  assumes "aoi_wf a" and "exec F a c = Some (r, a')"
  shows "aoi_wf a'"
proof (cases c)
  case (Enter u)
  then show ?thesis using assms enter_wf[OF assms(1), of F u] by (auto split: prod.splits)
next
  case (Leave i)
  then show ?thesis using assms leave_wf[OF assms(1)] by auto
next
  case (Locate i x y)
  then show ?thesis using assms locate_wf[OF assms(1), of i x y] by auto
next
  case (Move i x y)
  then show ?thesis using assms move_wf[OF assms(1)] by auto
next
  case (Speed i v)
  then show ?thesis using assms speed_wf[OF assms(1)] by auto
next
  case (Update i t)
  then show ?thesis using assms update_wf[OF assms(1), of F i t] by auto
next
  case (Trigger i enter_r leave_r)
  then show ?thesis using assms trigger_wf[OF assms(1)] by auto
qed (use assms in \<open>auto split: prod.splits\<close>)

lemma run_wf:
  assumes "aoi_wf a" and "run F a cs = Some (rs, a')"
  shows "aoi_wf a'"
  using assms
proof (induction cs arbitrary: a rs)
  case Nil
  then show ?case by simp
next
  case (Cons c cs)
  from Cons.prems(2) obtain r a1 rs' where
    e: "exec F a c = Some (r, a1)" and r: "run F a1 cs = Some (rs', a')"
    by (auto split: option.splits prod.splits)
  show ?case by (rule Cons.IH[OF exec_wf[OF Cons.prems(1) e] r])
qed

lemma reachable_wf: "reachable F a \<Longrightarrow> aoi_wf a"
  unfolding reachable_def using run_wf[OF init_wf] by blast

section \<open>Finishing a move\<close>

lemma sqrt_9: "sqrt 9 = 3"
  by (rule real_sqrt_unique) simp_all

text \<open>
  C7 says that \<^verbatim>\<open>aoi_update\<close> of an entity with \<open>r > 0\<close> remaining ticks and
  \<open>tick \<ge> r\<close> always puts the entity on its destination. \<^verbatim>\<open>aoi_update\<close> returns at
  once when the speed is not positive, whatever the remaining ticks: an entity created,
  given speed 1, sent to (10,0) and then given speed 0 keeps 10 remaining ticks, and
  \<^verbatim>\<open>aoi_update\<close> with 10 ticks leaves it at (0,0), still moving.
\<close>

theorem c7_speed_zero_counterexample:
  "map_option fst (run exact_fops (aoi_init exact_fops)
     [Enter 0, Speed 0 1, Move 0 10 0, Moving 0, Speed 0 0, Update 0 10, Pos 0, Moving 0]) =
   Some [RId 0, RDone, RDone, RMoving 1, RDone, RDone, RPos (0, 0), RMoving 1]"
  by (simp add: run_simps exact_fops_def sqrt_100 cong: let_weak_cong)

text \<open>
  C7, amended. In a reachable state, for a live entity with positive speed, \<open>r > 0\<close>
  remaining ticks and \<open>tick \<ge> r\<close>, \<^verbatim>\<open>aoi_update\<close> returns, adds \<open>r\<close> (not
  \<open>tick\<close>) to the elapsed ticks, leaves no remaining tick, puts the position on the
  destination of the move, and \<^verbatim>\<open>aoi_moving\<close> returns 0 afterwards. When the entity
  is not moving (\<^verbatim>\<open>aoi_moving\<close> returns 0), \<^verbatim>\<open>aoi_update\<close> returns the state as
  it is. When the speed of a live entity is not positive, \<^verbatim>\<open>aoi_update\<close> returns the
  state as it is too, whatever the remaining ticks and whatever \<open>tick\<close>.
\<close>

theorem c7_update_reaches_destination:
  assumes "reachable F a"
  shows "(aoi_object_lookup a i = Some obj \<and> 0 < o_speed (a_slot a obj) \<and>
      0 < o_n_tick (a_slot a obj) \<and> o_n_tick (a_slot a obj) \<le> tick \<longrightarrow>
      (\<exists>a'. aoi_update F a i tick = Some a'
         \<and> o_p_tick (a_slot a' obj) = o_p_tick (a_slot a obj) + o_n_tick (a_slot a obj)
         \<and> o_n_tick (a_slot a' obj) = 0
         \<and> aoi_pos a' i pxy = o_dp (a_slot a obj)
         \<and> aoi_moving a' i = 0))
    \<and> (aoi_moving a i = 0 \<longrightarrow> aoi_update F a i tick = Some a)
    \<and> (aoi_object_lookup a i = Some obj \<and> o_speed (a_slot a obj) \<le> 0 \<longrightarrow>
         aoi_update F a i tick = Some a)"
proof (intro conjI impI)
  assume h: "aoi_object_lookup a i = Some obj \<and> 0 < o_speed (a_slot a obj) \<and>
      0 < o_n_tick (a_slot a obj) \<and> o_n_tick (a_slot a obj) \<le> tick"
  then have lk: "aoi_object_lookup a i = Some obj" and sp: "0 < o_speed (a_slot a obj)"
    and nt: "0 < o_n_tick (a_slot a obj)" and tk: "o_n_tick (a_slot a obj) \<le> tick"
    by simp_all
  have wf: "aoi_wf a" by (rule reachable_wf[OF assms])
  let ?n = "o_n_tick (a_slot a obj)"
  let ?a1 = "upd_slot a obj (\<lambda>ob. ob\<lparr>o_n_tick := o_n_tick ob - ?n\<rparr>)"
  let ?a2 = "upd_slot ?a1 obj (\<lambda>ob. ob\<lparr>o_p_tick := o_p_tick ob + ?n\<rparr>)"
  let ?a3 = "upd_slot ?a2 obj (\<lambda>ob. ob\<lparr>o_p := o_dp ob\<rparr>)"
  let ?d = "(if f_gt F (at2 (o_d (a_slot ?a2 obj)) 0) (f_of_int F 0) then 1 else - 1 :: int,
             if f_gt F (at2 (o_d (a_slot ?a2 obj)) 1) (f_of_int F 0) then 1 else - 1 :: int)"
  have mn: "min tick ?n = ?n" using tk by simp
  have ou: "aoi_object_update F a obj tick = aoi_update_list ?a3 obj ?d"
    by (simp add: aoi_object_update_def Let_def mn)
  have w3: "aoi_wf ?a3" using wf by (intro wf_upd_slot) simp_all
  have l3: "live ?a3 obj" using lookup_live[OF lk] by (simp add: live_def)
  from update_list_wf[OF w3 l3, of ?d] obtain a' where
    a': "aoi_update_list ?a3 obj ?d = Some a'" "same_objects ?a3 a'" by blast
  have up: "aoi_update F a i tick = Some a'"
    using lk sp nt lookup_SomeD(3)[OF lk] a'(1) by (simp add: aoi_update_def ou)
  have "aoi_object_lookup ?a3 i = aoi_object_lookup a i"
    by (rule lookup_cong) simp_all
  then have lk': "aoi_object_lookup a' i = Some obj"
    using lk same_objects_lookup[OF a'(2)] by simp
  have f: "o_p_tick (a_slot a' obj) = o_p_tick (a_slot a obj) + ?n"
    "o_n_tick (a_slot a' obj) = 0" "o_p (a_slot a' obj) = o_dp (a_slot a obj)"
    by (simp_all add: same_objects_fields[OF a'(2)])
  have "aoi_pos a' i pxy = o_dp (a_slot a obj)"
    using lk' f(3) by (simp add: aoi_pos_def pos_def at2_def)
  moreover have "aoi_moving a' i = 0" using lk' f(2) by (simp add: aoi_moving_def)
  ultimately show "\<exists>a'. aoi_update F a i tick = Some a'
         \<and> o_p_tick (a_slot a' obj) = o_p_tick (a_slot a obj) + o_n_tick (a_slot a obj)
         \<and> o_n_tick (a_slot a' obj) = 0
         \<and> aoi_pos a' i pxy = o_dp (a_slot a obj)
         \<and> aoi_moving a' i = 0"
    using up f by blast
next
  assume "aoi_moving a i = 0"
  then show "aoi_update F a i tick = Some a"
    by (auto simp: aoi_moving_def aoi_update_def split: option.splits if_splits)
next
  assume "aoi_object_lookup a i = Some obj \<and> o_speed (a_slot a obj) \<le> 0"
  then show "aoi_update F a i tick = Some a"
    by (simp add: aoi_update_def)
qed

lemma run_three:
  "run F a [Enter u, Speed i v, Move j x y] =
     Some ([RId (fst (aoi_enter F a u)), RDone, RDone],
       aoi_move F (aoi_speed F (snd (aoi_enter F a u)) i v) j x y)"
  by (simp add: split_beta)

lemma run_four:
  "run F a [Enter u, Speed i v, Move j x y, Speed k w] =
     Some ([RId (fst (aoi_enter F a u)), RDone, RDone, RDone],
       aoi_speed F (aoi_move F (aoi_speed F (snd (aoi_enter F a u)) i v) j x y) k w)"
  by (simp add: split_beta)

lemma run_one:
  "run F a [Enter u] = Some ([RId (fst (aoi_enter F a u))], snd (aoi_enter F a u))"
  by (simp add: split_beta)

theorem c7_update_reaches_destination_witness:
  "aoi_object_lookup (aoi_move exact_fops
      (aoi_speed exact_fops (snd (aoi_enter exact_fops (aoi_init exact_fops) 0)) 0 1) 0 10 0) 0
     = Some 0
   \<and> o_speed (a_slot (aoi_move exact_fops
      (aoi_speed exact_fops (snd (aoi_enter exact_fops (aoi_init exact_fops) 0)) 0 1) 0 10 0) 0)
     = 1
   \<and> o_n_tick (a_slot (aoi_move exact_fops
      (aoi_speed exact_fops (snd (aoi_enter exact_fops (aoi_init exact_fops) 0)) 0 1) 0 10 0) 0)
     = 10
   \<and> (\<exists>a'. aoi_update exact_fops (aoi_move exact_fops
      (aoi_speed exact_fops (snd (aoi_enter exact_fops (aoi_init exact_fops) 0)) 0 1) 0 10 0)
      0 12 = Some a' \<and> o_n_tick (a_slot a' 0) = 0 \<and> aoi_pos a' 0 (0, 0) = (10, 0)
        \<and> aoi_moving a' 0 = 0)
   \<and> aoi_moving (snd (aoi_enter exact_fops (aoi_init exact_fops) 0)) 0 = 0
   \<and> aoi_update exact_fops (snd (aoi_enter exact_fops (aoi_init exact_fops) 0)) 0 12
     = Some (snd (aoi_enter exact_fops (aoi_init exact_fops) 0))
   \<and> aoi_object_lookup (aoi_speed exact_fops (aoi_move exact_fops
      (aoi_speed exact_fops (snd (aoi_enter exact_fops (aoi_init exact_fops) 0)) 0 1) 0 10 0)
      0 0) 0 = Some 0
   \<and> o_speed (a_slot (aoi_speed exact_fops (aoi_move exact_fops
      (aoi_speed exact_fops (snd (aoi_enter exact_fops (aoi_init exact_fops) 0)) 0 1) 0 10 0)
      0 0) 0) = 0
   \<and> o_n_tick (a_slot (aoi_speed exact_fops (aoi_move exact_fops
      (aoi_speed exact_fops (snd (aoi_enter exact_fops (aoi_init exact_fops) 0)) 0 1) 0 10 0)
      0 0) 0) = 10
   \<and> aoi_update exact_fops (aoi_speed exact_fops (aoi_move exact_fops
      (aoi_speed exact_fops (snd (aoi_enter exact_fops (aoi_init exact_fops) 0)) 0 1) 0 10 0)
      0 0) 0 12
     = Some (aoi_speed exact_fops (aoi_move exact_fops
      (aoi_speed exact_fops (snd (aoi_enter exact_fops (aoi_init exact_fops) 0)) 0 1) 0 10 0)
      0 0)"
proof -
  let ?e = "snd (aoi_enter exact_fops (aoi_init exact_fops) 0)"
  let ?s = "aoi_move exact_fops (aoi_speed exact_fops ?e 0 1) 0 10 0"
  let ?z = "aoi_speed exact_fops ?s 0 0"
  have r: "reachable exact_fops ?s"
    unfolding reachable_def using run_three[of exact_fops "aoi_init exact_fops" 0 0 1 0 10 0]
    by blast
  have re: "reachable exact_fops ?e"
    unfolding reachable_def using run_one[of exact_fops "aoi_init exact_fops" 0] by blast
  have rz: "reachable exact_fops ?z"
    unfolding reachable_def
    using run_four[of exact_fops "aoi_init exact_fops" 0 0 1 0 10 0 0 0] by blast
  have h1: "aoi_object_lookup ?s 0 = Some 0"
    by (simp add: run_simps exact_fops_def sqrt_100 cong: let_weak_cong)
  have h2: "o_speed (a_slot ?s 0) = 1"
    by (simp add: run_simps exact_fops_def sqrt_100 cong: let_weak_cong)
  have h3: "o_n_tick (a_slot ?s 0) = 10"
    by (simp add: run_simps exact_fops_def sqrt_100 cong: let_weak_cong)
  have h4: "o_dp (a_slot ?s 0) = (10, 0)"
    by (simp add: run_simps exact_fops_def sqrt_100 cong: let_weak_cong)
  have e1: "aoi_moving ?e 0 = 0"
    by (simp add: run_simps exact_fops_def cong: let_weak_cong)
  have z1: "aoi_object_lookup ?z 0 = Some 0"
    by (simp add: run_simps exact_fops_def sqrt_100 cong: let_weak_cong)
  have z2: "o_speed (a_slot ?z 0) = 0"
    by (simp add: run_simps exact_fops_def sqrt_100 cong: let_weak_cong)
  have z3: "o_n_tick (a_slot ?z 0) = 10"
    by (simp add: run_simps exact_fops_def sqrt_100 cong: let_weak_cong)
  have p1: "\<exists>a'. aoi_update exact_fops ?s 0 12 = Some a' \<and> o_n_tick (a_slot a' 0) = 0
      \<and> aoi_pos a' 0 (0, 0) = (10, 0) \<and> aoi_moving a' 0 = 0"
    using c7_update_reaches_destination [OF r, of 0 0 12 "(0, 0)"] h1 h2 h3 h4 by auto
  have p2: "aoi_update exact_fops ?e 0 12 = Some ?e"
    using c7_update_reaches_destination [OF re, of 0 0 12 "(0, 0)"] e1 by blast
  have p3: "aoi_update exact_fops ?z 0 12 = Some ?z"
    using c7_update_reaches_destination [OF rz, of 0 0 12 "(0, 0)"] z1 z2 by simp
  show ?thesis
    using h1 h2 h3 p1 e1 p2 z1 z2 z3 p3 by blast
qed

section \<open>The order of an axis\<close>

lemma sorted_iff_succ:
  fixes f :: "nat \<Rightarrow> int"
  assumes "distinct xs"
  shows "sorted (map f xs) \<longleftrightarrow> (\<forall>x \<in> set xs. \<forall>y. succ_in xs x = Some y \<longrightarrow> f x \<le> f y)"
  using assms
proof (induction xs)
  case Nil
  then show ?case by simp
next
  case (Cons x xs)
  show ?case
  proof (cases xs)
    case Nil
    then show ?thesis by simp
  next
    case (Cons h t)
    have hd: "sorted (map f xs) \<Longrightarrow> (\<forall>y \<in> set xs. f x \<le> f y) \<longleftrightarrow> f x \<le> f h"
      using Cons by auto
    have IH: "sorted (map f xs) \<longleftrightarrow> (\<forall>z \<in> set xs. \<forall>y. succ_in xs z = Some y \<longrightarrow> f z \<le> f y)"
      using Cons.IH Cons.prems by simp
    have "(\<forall>z \<in> set (x # xs). \<forall>y. succ_in (x # xs) z = Some y \<longrightarrow> f z \<le> f y) \<longleftrightarrow>
       f x \<le> f h \<and> (\<forall>z \<in> set xs. \<forall>y. succ_in xs z = Some y \<longrightarrow> f z \<le> f y)"
      using Cons.prems Cons by auto
    then show ?thesis using hd IH by auto
  qed
qed

lemma axis_sorted_iff:
  assumes "dll a i xs" and "set xs = {k. live a k}"
  shows "axis_sorted a i \<longleftrightarrow> sorted (map (pos a i) xs)"
proof -
  have "axis_sorted a i \<longleftrightarrow>
      (\<forall>x \<in> set xs. \<forall>y. succ_in xs x = Some y \<longrightarrow> pos a i x \<le> pos a i y)"
    using assms by (auto simp: axis_sorted_def dll_def)
  then show ?thesis using sorted_iff_succ[of xs "pos a i"] assms(1) by (simp add: dll_def)
qed

lemma sorted_hd_le:
  fixes f :: "nat \<Rightarrow> int"
  shows "sorted (map f ds) \<Longrightarrow> y \<in> set ds \<Longrightarrow> f (hd ds) \<le> f y"
  by (cases ds) auto

lemma sorted_le_last:
  fixes f :: "nat \<Rightarrow> int"
  shows "sorted (map f cs) \<Longrightarrow> y \<in> set cs \<Longrightarrow> f y \<le> f (last cs)"
  by (cases cs rule: rev_cases) (auto simp: sorted_append)

lemma update_axis_sorted:
  assumes "dll b i xs" and "obj \<in> set xs"
    and "sorted (map ((pos b i)(obj := old)) xs)"
    and "(0 < at2 d i \<longrightarrow> old \<le> pos b i obj) \<and> (at2 d i < 0 \<longrightarrow> pos b i obj \<le> old) \<and>
         (at2 d i = 0 \<longrightarrow> pos b i obj = old)"
  shows "\<exists>b' zs. update_axis b obj d i = Some b' \<and> relinked i b b' \<and> dll b' i zs \<and>
     set zs = set xs \<and> sorted (map (pos b i) zs)"
proof -
  let ?f = "pos b i"
  obtain as bs where sp: "xs = as @ obj # bs" using assms(2) by (meson split_list)
  have dl: "dll b i (as @ obj # bs)" using assms(1) sp by simp
  have d: "distinct (as @ obj # bs)" using dl by (simp add: dll_def)
  then have oa: "obj \<notin> set as" and ob: "obj \<notin> set bs" by auto
  have "sorted (map ?f as @ old # map ?f bs)"
    using assms(3) sp oa ob by simp
  then have sa: "sorted (map ?f as)" and sb: "sorted (map ?f bs)"
    and la: "\<forall>x \<in> set as. ?f x \<le> old" and lb: "\<forall>y \<in> set bs. old \<le> ?f y"
    and ab: "\<forall>x \<in> set as. \<forall>y \<in> set bs. ?f x \<le> ?f y"
    by (auto simp: sorted_append)
  consider "0 < at2 d i" | "\<not> 0 < at2 d i" "at2 d i < 0" | "at2 d i = 0" by linarith
  then show ?thesis
  proof cases
    case 1
    then have gt: "old \<le> ?f obj" using assms(4) by simp
    from update_axis_pos[OF dl 1] obtain cs ds b' where
      r: "bs = cs @ ds" "\<forall>c \<in> set cs. ?f c \<le> ?f obj" "ds = [] \<or> ?f obj < ?f (hd ds)"
        "update_axis b obj d i = Some b'" "dll b' i (as @ cs @ obj # ds)" "relinked i b b'"
      by blast
    have sd: "sorted (map ?f ds)" and sc: "sorted (map ?f cs)"
      and cd: "\<forall>x \<in> set cs. \<forall>y \<in> set ds. ?f x \<le> ?f y"
      using sb r(1) by (auto simp: sorted_append)
    have od: "?f obj \<le> ?f y" if "y \<in> set ds" for y
    proof -
      have "ds \<noteq> []" using that by auto
      then have "?f obj < ?f (hd ds)" using r(3) by simp
      then show ?thesis using sorted_hd_le[OF sd that] by simp
    qed
    have ao: "?f x \<le> ?f obj" if "x \<in> set as" for x using la that gt by fastforce
    have "sorted (map ?f (as @ cs @ obj # ds))"
      using sa sc sd cd od ao ab r(1,2) by (auto simp: sorted_append)
    moreover have "set (as @ cs @ obj # ds) = set xs" using sp r(1) by auto
    ultimately show ?thesis using r(4-6) by blast
  next
    case 2
    then have lt: "?f obj \<le> old" using assms(4) by simp
    from update_axis_neg[OF dl 2] obtain cs ds b' where
      r: "as = cs @ ds" "\<forall>c \<in> set ds. ?f obj \<le> ?f c" "cs = [] \<or> ?f (last cs) < ?f obj"
        "update_axis b obj d i = Some b'" "dll b' i (cs @ obj # ds @ bs)" "relinked i b b'"
      by blast
    have sd: "sorted (map ?f ds)" and sc: "sorted (map ?f cs)"
      and cd: "\<forall>x \<in> set cs. \<forall>y \<in> set ds. ?f x \<le> ?f y"
      using sa r(1) by (auto simp: sorted_append)
    have co: "?f y \<le> ?f obj" if "y \<in> set cs" for y
    proof -
      have "cs \<noteq> []" using that by auto
      then have "?f (last cs) < ?f obj" using r(3) by simp
      then show ?thesis using sorted_le_last[OF sc that] by simp
    qed
    have ob': "?f obj \<le> ?f y" if "y \<in> set bs" for y using lb that lt by fastforce
    have "sorted (map ?f (cs @ obj # ds @ bs))"
      using sb sc sd cd co ob' ab r(1,2) by (auto simp: sorted_append)
    moreover have "set (cs @ obj # ds @ bs) = set xs" using sp r(1) by auto
    ultimately show ?thesis using r(4-6) by blast
  next
    case 3
    then have "old = ?f obj" using assms(4) by simp
    then have "(?f)(obj := old) = ?f" by auto
    then have "sorted (map ?f xs)" using assms(3) by simp
    then show ?thesis using 3 assms(1)
      by (intro exI[where x = b] exI[where x = xs]) (simp add: update_axis_zero)
  qed
qed

lemma dll_upd_slot:
  assumes "o_prev (f (a_slot a k)) = o_prev (a_slot a k)"
    and "o_next (f (a_slot a k)) = o_next (a_slot a k)"
  shows "dll (upd_slot a k f) i xs = dll a i xs"
  using assms by (auto simp: dll_def nxt_def prv_def)

lemma pos_same_objects: "same_objects a b \<Longrightarrow> pos b i k = pos a i k"
  by (simp add: pos_def same_objects_fields)

lemma relinked_dll_other:
  assumes "relinked i a b" and "(i = 0) \<noteq> (j = 0)" and "dll a j xs"
  shows "dll b j xs"
  using assms by (intro dll_cong[OF assms(3)]) (simp_all add: relinked_def)

text \<open>Both axes at once: when the cell \<open>obj\<close> has been given a new position in a state
  whose axes were in order with the old one, and the new coordinate lies on the side of
  the old one that the sign of \<open>d\<close> names, \<^verbatim>\<open>_aoi_update_list\<close> puts both axes in
  order again.\<close>

lemma update_list_sorted:
  assumes lo: "live a obj"
    and sx: "\<exists>xs. dll a 0 xs \<and> set xs = {k. live a k} \<and> sorted (map ((pos a 0)(obj := o0)) xs)"
    and sy: "\<exists>ys. dll a (Suc 0) ys \<and> set ys = {k. live a k} \<and>
       sorted (map ((pos a (Suc 0))(obj := o1)) ys)"
    and m0: "(0 < at2 d 0 \<longrightarrow> o0 \<le> pos a 0 obj) \<and> (at2 d 0 < 0 \<longrightarrow> pos a 0 obj \<le> o0) \<and>
         (at2 d 0 = 0 \<longrightarrow> pos a 0 obj = o0)"
    and m1: "(0 < at2 d (Suc 0) \<longrightarrow> o1 \<le> pos a (Suc 0) obj) \<and>
         (at2 d (Suc 0) < 0 \<longrightarrow> pos a (Suc 0) obj \<le> o1) \<and>
         (at2 d (Suc 0) = 0 \<longrightarrow> pos a (Suc 0) obj = o1)"
  shows "\<exists>c. aoi_update_list a obj d = Some c \<and> same_objects a c \<and>
     axis_sorted c 0 \<and> axis_sorted c (Suc 0)"
proof -
  obtain xs where xs: "dll a 0 xs" "set xs = {k. live a k}"
    "sorted (map ((pos a 0)(obj := o0)) xs)" using sx by blast
  obtain ys where ys: "dll a (Suc 0) ys" "set ys = {k. live a k}"
    "sorted (map ((pos a (Suc 0))(obj := o1)) ys)" using sy by blast
  have ox: "obj \<in> set xs" and oy: "obj \<in> set ys" using lo xs(2) ys(2) by simp_all
  from update_axis_sorted[OF xs(1) ox xs(3) m0] obtain b zs where
    b: "update_axis a obj d 0 = Some b" "relinked 0 a b" "dll b 0 zs" "set zs = set xs"
      "sorted (map (pos a 0) zs)" by blast
  have sob: "same_objects a b" by (rule relinked_same_objects[OF b(2)])
  have yb: "dll b (Suc 0) ys"
    using ys(1) by (intro relinked_dll_other[OF b(2)]) simp_all
  have pb: "pos b j = pos a j" for j by (rule ext) (rule pos_same_objects[OF sob])
  have syb: "sorted (map ((pos b (Suc 0))(obj := o1)) ys)" unfolding pb by (rule ys(3))
  have m1b: "(0 < at2 d (Suc 0) \<longrightarrow> o1 \<le> pos b (Suc 0) obj) \<and>
         (at2 d (Suc 0) < 0 \<longrightarrow> pos b (Suc 0) obj \<le> o1) \<and>
         (at2 d (Suc 0) = 0 \<longrightarrow> pos b (Suc 0) obj = o1)" unfolding pb by (rule m1)
  from update_axis_sorted[OF yb oy syb m1b] obtain c ws where
    c: "update_axis b obj d (Suc 0) = Some c" "relinked (Suc 0) b c" "dll c (Suc 0) ws"
      "set ws = set ys" "sorted (map (pos b (Suc 0)) ws)" by blast
  have soc: "same_objects b c" by (rule relinked_same_objects[OF c(2)])
  have pc: "pos c j = pos b j" for j by (rule ext) (rule pos_same_objects[OF soc])
  have lc: "live c k = live a k" for k
    using live_same_objects[OF soc] live_same_objects[OF sob] by simp
  have xc: "dll c 0 zs" using b(3) by (intro relinked_dll_other[OF c(2)]) simp_all
  have "sorted (map (pos c 0) zs)" unfolding pc pb by (rule b(5))
  then have r0: "axis_sorted c 0"
    using axis_sorted_iff[OF xc] b(4) xs(2) lc by simp
  have "sorted (map (pos c (Suc 0)) ws)" unfolding pc by (rule c(5))
  then have r1: "axis_sorted c (Suc 0)"
    using axis_sorted_iff[OF c(3)] c(4) ys(2) lc by simp
  have "aoi_update_list a obj d = Some c"
    using b(1) c(1) by (simp add: aoi_update_list_def)
  then show ?thesis using r0 r1 same_objects_trans[OF sob soc] by simp
qed

lemma locate_sorted:
  assumes "aoi_wf a" and "axis_sorted a 0" and "axis_sorted a (Suc 0)"
  shows "\<exists>a'. aoi_locate a i x y = Some a' \<and> axis_sorted a' 0 \<and> axis_sorted a' (Suc 0)"
proof (cases "aoi_object_lookup a i")
  case None
  then show ?thesis using assms by (simp add: aoi_locate_def)
next
  case (Some obj)
  have wf: "aoi_wf a" by (rule assms(1))
  have lo: "live a obj" by (rule lookup_live[OF Some])
  let ?a1 = "upd_slot a obj (\<lambda>ob. ob\<lparr>o_p := set2 (o_p ob) 0 x\<rparr>)"
  let ?a2 = "upd_slot ?a1 obj (\<lambda>ob. ob\<lparr>o_p := set2 (o_p ob) (Suc 0) y\<rparr>)"
  let ?d = "(x - pos a 0 obj, y - pos a (Suc 0) obj)"
  have lv2: "live ?a2 k = live a k" for k by (simp add: live_def)
  have dl2: "dll ?a2 j zs = dll a j zs" for j zs
    by (simp add: dll_upd_slot)
  have p0: "(pos ?a2 0)(obj := pos a 0 obj) = pos a 0"
    by (auto simp: pos_def at2_def set2_def)
  have p1: "(pos ?a2 (Suc 0))(obj := pos a (Suc 0) obj) = pos a (Suc 0)"
    by (auto simp: pos_def at2_def set2_def)
  have q0: "pos ?a2 0 obj = x" and q1: "pos ?a2 (Suc 0) obj = y"
    by (simp_all add: pos_def at2_def set2_def)
  obtain xs where xs: "dll a 0 xs" "set xs = {k. live a k}" using wf_D(5)[OF wf] by blast
  obtain ys where ys: "dll a (Suc 0) ys" "set ys = {k. live a k}" using wf_D(6)[OF wf] by blast
  have sx: "sorted (map (pos a 0) xs)" using axis_sorted_iff[OF xs] assms(2) by simp
  have sy: "sorted (map (pos a (Suc 0)) ys)" using axis_sorted_iff[OF ys] assms(3) by simp
  have "\<exists>c. aoi_update_list ?a2 obj ?d = Some c \<and> same_objects ?a2 c \<and>
     axis_sorted c 0 \<and> axis_sorted c (Suc 0)"
  proof (rule update_list_sorted[where ?o0.0 = "pos a 0 obj" and ?o1.0 = "pos a (Suc 0) obj"])
    show "live ?a2 obj" using lo by (simp add: lv2)
    show "\<exists>xs. dll ?a2 0 xs \<and> set xs = {k. live ?a2 k} \<and>
        sorted (map ((pos ?a2 0)(obj := pos a 0 obj)) xs)"
      unfolding p0 lv2 dl2 using xs sx by blast
    show "\<exists>ys. dll ?a2 (Suc 0) ys \<and> set ys = {k. live ?a2 k} \<and>
        sorted (map ((pos ?a2 (Suc 0))(obj := pos a (Suc 0) obj)) ys)"
      unfolding p1 lv2 dl2 using ys sy by blast
    show "(0 < at2 ?d 0 \<longrightarrow> pos a 0 obj \<le> pos ?a2 0 obj) \<and>
        (at2 ?d 0 < 0 \<longrightarrow> pos ?a2 0 obj \<le> pos a 0 obj) \<and>
        (at2 ?d 0 = 0 \<longrightarrow> pos ?a2 0 obj = pos a 0 obj)"
      unfolding q0 by (simp add: at2_def)
    show "(0 < at2 ?d (Suc 0) \<longrightarrow> pos a (Suc 0) obj \<le> pos ?a2 (Suc 0) obj) \<and>
        (at2 ?d (Suc 0) < 0 \<longrightarrow> pos ?a2 (Suc 0) obj \<le> pos a (Suc 0) obj) \<and>
        (at2 ?d (Suc 0) = 0 \<longrightarrow> pos ?a2 (Suc 0) obj = pos a (Suc 0) obj)"
      unfolding q1 by (simp add: at2_def)
  qed
  then obtain c where c: "aoi_update_list ?a2 obj ?d = Some c" "axis_sorted c 0"
    "axis_sorted c (Suc 0)" by blast
  have "aoi_locate a i x y = Some c"
    using Some c(1) by (simp add: aoi_locate_def Let_def)
  then show ?thesis using c(2,3) by simp
qed


lemma object_update_sorted:
  assumes wf: "aoi_wf a" and lo: "live a obj"
    and s0: "axis_sorted a 0" and s1: "axis_sorted a (Suc 0)"
  shows "\<exists>a'. aoi_object_update F a obj tick = Some a' \<and>
     ((if f_gt F (at2 (o_d (a_slot a obj)) 0) (f_of_int F 0)
       then pos a 0 obj \<le> pos a' 0 obj else pos a' 0 obj \<le> pos a 0 obj) \<and>
      (if f_gt F (at2 (o_d (a_slot a obj)) (Suc 0)) (f_of_int F 0)
       then pos a (Suc 0) obj \<le> pos a' (Suc 0) obj
       else pos a' (Suc 0) obj \<le> pos a (Suc 0) obj)
      \<longrightarrow> axis_sorted a' 0 \<and> axis_sorted a' (Suc 0))"
proof -
  let ?n = "min tick (o_n_tick (a_slot a obj))"
  let ?a1 = "upd_slot a obj (\<lambda>ob. ob\<lparr>o_n_tick := o_n_tick ob - ?n\<rparr>)"
  let ?a2 = "upd_slot ?a1 obj (\<lambda>ob. ob\<lparr>o_p_tick := o_p_tick ob + ?n\<rparr>)"
  define g where "g = (if o_n_tick (a_slot ?a2 obj) \<le> 0 then (\<lambda>ob. ob\<lparr>o_p := o_dp ob\<rparr>)
     else (let ob = a_slot ?a2 obj;
               t = f_mul F (o_e ob) (f_of_int F (o_p_tick ob));
               s = f_mul F (f_sin F t) (f_sin F t)
           in (\<lambda>ob. ob\<lparr>o_p := (step_pos F ob s 0, step_pos F ob s 1)\<rparr>)))"
  define a3 where "a3 = upd_slot ?a2 obj g"
  define d :: "int \<times> int" where
    "d = (if f_gt F (at2 (o_d (a_slot a obj)) 0) (f_of_int F 0) then 1 else - 1,
          if f_gt F (at2 (o_d (a_slot a obj)) (Suc 0)) (f_of_int F 0) then 1 else - 1)"
  have gp: "\<exists>p. g = (\<lambda>ob. ob\<lparr>o_p := p ob\<rparr>)"
    unfolding g_def Let_def by (cases "o_n_tick (a_slot ?a2 obj) \<le> 0") auto
  then obtain p where g: "g = (\<lambda>ob. ob\<lparr>o_p := p ob\<rparr>)" by blast
  have ou: "aoi_object_update F a obj tick = aoi_update_list a3 obj d"
    by (simp add: aoi_object_update_def Let_def a3_def d_def g_def)
  have w3: "aoi_wf a3" unfolding a3_def g using wf by (intro wf_upd_slot) simp_all
  have lv3: "live a3 k = live a k" for k unfolding a3_def g by (simp add: live_def)
  have dl3: "dll a3 j zs = dll a j zs" for j zs
    unfolding a3_def g by (simp add: dll_upd_slot)
  have p3: "(pos a3 j)(obj := pos a j obj) = pos a j" for j
    unfolding a3_def g by (auto simp: pos_def)
  have l3: "live a3 obj" using lo by (simp add: lv3)
  obtain xs where xs: "dll a 0 xs" "set xs = {k. live a k}" using wf_D(5)[OF wf] by blast
  obtain ys where ys: "dll a (Suc 0) ys" "set ys = {k. live a k}" using wf_D(6)[OF wf] by blast
  have sx: "sorted (map (pos a 0) xs)" using axis_sorted_iff[OF xs] s0 by simp
  have sy: "sorted (map (pos a (Suc 0)) ys)" using axis_sorted_iff[OF ys] s1 by simp
  let ?c0 = "if f_gt F (at2 (o_d (a_slot a obj)) 0) (f_of_int F 0)
       then pos a 0 obj \<le> pos a3 0 obj else pos a3 0 obj \<le> pos a 0 obj"
  let ?c1 = "if f_gt F (at2 (o_d (a_slot a obj)) (Suc 0)) (f_of_int F 0)
       then pos a (Suc 0) obj \<le> pos a3 (Suc 0) obj
       else pos a3 (Suc 0) obj \<le> pos a (Suc 0) obj"
  show ?thesis
  proof (cases "?c0 \<and> ?c1")
    case True
    have "\<exists>c. aoi_update_list a3 obj d = Some c \<and> same_objects a3 c \<and>
       axis_sorted c 0 \<and> axis_sorted c (Suc 0)"
    proof (rule update_list_sorted[where ?o0.0 = "pos a 0 obj" and ?o1.0 = "pos a (Suc 0) obj"])
      show "live a3 obj" by (rule l3)
      show "\<exists>xs. dll a3 0 xs \<and> set xs = {k. live a3 k} \<and>
          sorted (map ((pos a3 0)(obj := pos a 0 obj)) xs)"
        unfolding p3 lv3 dl3 using xs sx by blast
      show "\<exists>ys. dll a3 (Suc 0) ys \<and> set ys = {k. live a3 k} \<and>
          sorted (map ((pos a3 (Suc 0))(obj := pos a (Suc 0) obj)) ys)"
        unfolding p3 lv3 dl3 using ys sy by blast
      show "(0 < at2 d 0 \<longrightarrow> pos a 0 obj \<le> pos a3 0 obj) \<and>
          (at2 d 0 < 0 \<longrightarrow> pos a3 0 obj \<le> pos a 0 obj) \<and>
          (at2 d 0 = 0 \<longrightarrow> pos a3 0 obj = pos a 0 obj)"
        using True by (simp add: d_def at2_def split: if_splits)
      show "(0 < at2 d (Suc 0) \<longrightarrow> pos a (Suc 0) obj \<le> pos a3 (Suc 0) obj) \<and>
          (at2 d (Suc 0) < 0 \<longrightarrow> pos a3 (Suc 0) obj \<le> pos a (Suc 0) obj) \<and>
          (at2 d (Suc 0) = 0 \<longrightarrow> pos a3 (Suc 0) obj = pos a (Suc 0) obj)"
        using True by (simp add: d_def at2_def split: if_splits)
    qed
    then show ?thesis unfolding ou by blast
  next
    case False
    from update_list_wf[OF w3 l3, of d] obtain a' where
      a': "aoi_update_list a3 obj d = Some a'" "same_objects a3 a'" by blast
    have "pos a' j obj = pos a3 j obj" for j by (rule pos_same_objects[OF a'(2)])
    then show ?thesis unfolding ou using a'(1) False by auto
  qed
qed

lemma update_sorted:
  assumes wf: "aoi_wf a" and s0: "axis_sorted a 0" and s1: "axis_sorted a (Suc 0)"
  shows "\<exists>a'. aoi_update F a i tick = Some a' \<and>
     (aoi_object_lookup a i = None \<longrightarrow> a' = a) \<and>
     (\<forall>obj. aoi_object_lookup a i = Some obj \<and>
        (if f_gt F (at2 (o_d (a_slot a obj)) 0) (f_of_int F 0)
         then pos a 0 obj \<le> pos a' 0 obj else pos a' 0 obj \<le> pos a 0 obj) \<and>
        (if f_gt F (at2 (o_d (a_slot a obj)) (Suc 0)) (f_of_int F 0)
         then pos a (Suc 0) obj \<le> pos a' (Suc 0) obj
         else pos a' (Suc 0) obj \<le> pos a (Suc 0) obj)
        \<longrightarrow> axis_sorted a' 0 \<and> axis_sorted a' (Suc 0))"
proof (cases "aoi_object_lookup a i")
  case None
  then show ?thesis by (simp add: aoi_update_def)
next
  case (Some obj)
  show ?thesis
  proof (cases "o_type (a_slot a obj) = AOI_OBJECT_INVALID \<or> o_speed (a_slot a obj) \<le> 0
      \<or> o_n_tick (a_slot a obj) \<le> 0")
    case True
    then have "aoi_update F a i tick = Some a" using Some by (auto simp: aoi_update_def)
    then show ?thesis using s0 s1 by simp
  next
    case False
    then have "aoi_update F a i tick = aoi_object_update F a obj tick"
      using Some by (auto simp: aoi_update_def)
    then show ?thesis
      using object_update_sorted[OF wf lookup_live[OF Some] s0 s1, of F tick] Some by auto
  qed
qed

text \<open>
  C4 says that both axes are in order after every \<^verbatim>\<open>aoi_locate\<close> and every
  \<^verbatim>\<open>aoi_update\<close>, whatever the calls before. \<^verbatim>\<open>aoi_enter\<close> links a new entity, at
  (0,0), at the head of both lists wherever the others stand, and \<^verbatim>\<open>aoi_locate\<close> moves
  only the entity it is called for: with entity 0 at (-5,0), a new entity 1 is linked in
  front of it, and after \<^verbatim>\<open>aoi_locate\<close> of entity 1 to (0,0) the x list is 1, 0 with
  coordinates 0, -5. \<^verbatim>\<open>aoi_update\<close> walks in the direction of the move, not of the
  step: of two entities at (0,0), entity 0 starts a move towards (3,0), entity 1 is
  placed at (5,0), entity 0 is placed at (20,0); both axes are in order; \<^verbatim>\<open>aoi_update\<close>
  with 3 ticks puts entity 0 on (3,0) and looks for its place forwards only, leaving the
  x list 1, 0 with coordinates 5, 3.
\<close>

theorem c4_order_counterexample:
  "map_option fst (run exact_fops (aoi_init exact_fops)
      [Enter 0, Locate 0 (- 5) 0, Enter 0, Locate 1 0 0]) = Some [RId 0, RDone, RId 1, RDone]
   \<and> \<not> axis_sorted (snd (the (run exact_fops (aoi_init exact_fops)
      [Enter 0, Locate 0 (- 5) 0, Enter 0, Locate 1 0 0]))) 0
   \<and> map_option fst (run exact_fops (aoi_init exact_fops)
      [Enter 0, Enter 0, Speed 0 1, Move 0 3 0, Locate 1 5 0, Locate 0 20 0, Update 0 3]) =
     Some [RId 0, RId 1, RDone, RDone, RDone, RDone, RDone]
   \<and> axis_sorted (snd (the (run exact_fops (aoi_init exact_fops)
      [Enter 0, Enter 0, Speed 0 1, Move 0 3 0, Locate 1 5 0, Locate 0 20 0]))) 0
   \<and> axis_sorted (snd (the (run exact_fops (aoi_init exact_fops)
      [Enter 0, Enter 0, Speed 0 1, Move 0 3 0, Locate 1 5 0, Locate 0 20 0]))) 1
   \<and> \<not> axis_sorted (snd (the (run exact_fops (aoi_init exact_fops)
      [Enter 0, Enter 0, Speed 0 1, Move 0 3 0, Locate 1 5 0, Locate 0 20 0, Update 0 3]))) 0"
proof -
  let ?s = "snd (the (run exact_fops (aoi_init exact_fops)
      [Enter 0, Locate 0 (- 5) 0, Enter 0, Locate 1 0 0]))"
  let ?t = "snd (the (run exact_fops (aoi_init exact_fops)
      [Enter 0, Enter 0, Speed 0 1, Move 0 3 0, Locate 1 5 0, Locate 0 20 0]))"
  let ?u = "snd (the (run exact_fops (aoi_init exact_fops)
      [Enter 0, Enter 0, Speed 0 1, Move 0 3 0, Locate 1 5 0, Locate 0 20 0, Update 0 3]))"
  have r1: "map_option fst (run exact_fops (aoi_init exact_fops)
      [Enter 0, Locate 0 (- 5) 0, Enter 0, Locate 1 0 0]) = Some [RId 0, RDone, RId 1, RDone]"
    by (simp add: run_simps cong: let_weak_cong)
  have s: "live ?s 1 \<and> nxt ?s 0 1 = Some 0 \<and> pos ?s 0 1 = 0 \<and> pos ?s 0 0 = - 5"
    by (simp add: run_simps live_def cong: let_weak_cong)
  have ns: "\<not> axis_sorted ?s 0"
  proof
    assume "axis_sorted ?s 0"
    then have "pos ?s 0 1 \<le> pos ?s 0 0" using s unfolding axis_sorted_def by blast
    then show False using s by simp
  qed
  have r2: "map_option fst (run exact_fops (aoi_init exact_fops)
      [Enter 0, Enter 0, Speed 0 1, Move 0 3 0, Locate 1 5 0, Locate 0 20 0, Update 0 3]) =
     Some [RId 0, RId 1, RDone, RDone, RDone, RDone, RDone]"
    by (simp add: run_simps exact_fops_def sqrt_9 cong: let_weak_cong)
  have t0: "axis_sorted ?t 0"
    unfolding axis_sorted_def
    by (simp add: run_simps exact_fops_def sqrt_9 live_def cong: let_weak_cong)
  have t1: "axis_sorted ?t 1"
    unfolding axis_sorted_def
    by (simp add: run_simps exact_fops_def sqrt_9 live_def cong: let_weak_cong)
  have u: "live ?u 1 \<and> nxt ?u 0 1 = Some 0 \<and> pos ?u 0 1 = 5 \<and> pos ?u 0 0 = 3"
    by (simp add: run_simps exact_fops_def sqrt_9 live_def cong: let_weak_cong)
  have nu: "\<not> axis_sorted ?u 0"
  proof
    assume "axis_sorted ?u 0"
    then have "pos ?u 0 1 \<le> pos ?u 0 0" using u unfolding axis_sorted_def by blast
    then show False using u by simp
  qed
  show ?thesis using r1 ns r2 t0 t1 nu by simp
qed

text \<open>
  C4, amended. In a reachable state whose two axes are in order (every used cell has a
  coordinate not above that of the cell after it), \<^verbatim>\<open>aoi_locate\<close> returns and leaves
  both axes in order; \<^verbatim>\<open>aoi_update\<close> returns, changes nothing when the id is not in
  use, and leaves both axes in order when, on each axis, the coordinate it gives the
  entity is not below the old one where the component of the direction is positive,
  and not above the old one where it is not.
\<close>

theorem c4_order_kept:
  assumes "reachable F a" and "axis_sorted a 0" and "axis_sorted a 1"
  shows "(\<exists>a'. aoi_locate a i x y = Some a' \<and> axis_sorted a' 0 \<and> axis_sorted a' 1) \<and>
    (\<exists>a'. aoi_update F a i tick = Some a' \<and>
       (aoi_object_lookup a i = None \<longrightarrow> a' = a) \<and>
       (\<forall>obj. aoi_object_lookup a i = Some obj \<and>
          (if f_gt F (at2 (o_d (a_slot a obj)) 0) (f_of_int F 0)
           then pos a 0 obj \<le> pos a' 0 obj else pos a' 0 obj \<le> pos a 0 obj) \<and>
          (if f_gt F (at2 (o_d (a_slot a obj)) 1) (f_of_int F 0)
           then pos a 1 obj \<le> pos a' 1 obj else pos a' 1 obj \<le> pos a 1 obj)
          \<longrightarrow> axis_sorted a' 0 \<and> axis_sorted a' 1))"
proof -
  have wf: "aoi_wf a" by (rule reachable_wf[OF assms(1)])
  have s1: "axis_sorted a (Suc 0)" using assms(3) by simp
  show ?thesis
    unfolding One_nat_def
    using locate_sorted[OF wf assms(2) s1, of i x y] update_sorted[OF wf assms(2) s1, of F i tick]
    by blast
qed

lemma run_two:
  "run F a [Enter u, Enter v] =
     Some ([RId (fst (aoi_enter F a u)), RId (fst (aoi_enter F (snd (aoi_enter F a u)) v))],
       snd (aoi_enter F (snd (aoi_enter F a u)) v))"
  by (simp add: split_beta)

lemma run_enter_enter_speed_move:
  "run F a [Enter u, Enter v, Speed i s, Move j x y] =
     Some ([RId (fst (aoi_enter F a u)), RId (fst (aoi_enter F (snd (aoi_enter F a u)) v)),
            RDone, RDone],
       aoi_move F (aoi_speed F (snd (aoi_enter F (snd (aoi_enter F a u)) v)) i s) j x y)"
  by (simp add: split_beta)

theorem c4_order_kept_witness:
  "axis_sorted (snd (aoi_enter exact_fops (snd (aoi_enter exact_fops (aoi_init exact_fops) 0)) 0)) 0
   \<and> axis_sorted (snd (aoi_enter exact_fops (snd (aoi_enter exact_fops (aoi_init exact_fops) 0)) 0)) 1
   \<and> (\<exists>a'. aoi_locate
         (snd (aoi_enter exact_fops (snd (aoi_enter exact_fops (aoi_init exact_fops) 0)) 0))
         1 5 7 = Some a' \<and> axis_sorted a' 0 \<and> axis_sorted a' 1)
   \<and> axis_sorted (aoi_move exact_fops (aoi_speed exact_fops
        (snd (aoi_enter exact_fops (snd (aoi_enter exact_fops (aoi_init exact_fops) 0)) 0))
        0 1) 0 3 0) 0
   \<and> axis_sorted (aoi_move exact_fops (aoi_speed exact_fops
        (snd (aoi_enter exact_fops (snd (aoi_enter exact_fops (aoi_init exact_fops) 0)) 0))
        0 1) 0 3 0) 1
   \<and> (\<exists>a'. aoi_update exact_fops (aoi_move exact_fops (aoi_speed exact_fops
        (snd (aoi_enter exact_fops (snd (aoi_enter exact_fops (aoi_init exact_fops) 0)) 0))
        0 1) 0 3 0) 0 3 = Some a' \<and> pos a' 0 0 = 3 \<and> pos a' 1 0 = 0
        \<and> axis_sorted a' 0 \<and> axis_sorted a' 1)"
proof -
  let ?s = "snd (aoi_enter exact_fops (snd (aoi_enter exact_fops (aoi_init exact_fops) 0)) 0)"
  let ?m = "aoi_move exact_fops (aoi_speed exact_fops ?s 0 1) 0 3 0"
  have r: "reachable exact_fops ?s"
    unfolding reachable_def using run_two[of exact_fops "aoi_init exact_fops" 0 0] by blast
  have rm: "reachable exact_fops ?m"
    unfolding reachable_def
    using run_enter_enter_speed_move[of exact_fops "aoi_init exact_fops" 0 0 0 1 0 3 0] by blast
  have s0: "axis_sorted ?s 0"
    unfolding axis_sorted_def by (simp add: run_simps live_def cong: let_weak_cong)
  have s1: "axis_sorted ?s 1"
    unfolding axis_sorted_def by (simp add: run_simps live_def cong: let_weak_cong)
  have m0: "axis_sorted ?m 0"
    unfolding axis_sorted_def
    by (simp add: run_simps live_def exact_fops_def sqrt_9 cong: let_weak_cong)
  have m1: "axis_sorted ?m 1"
    unfolding axis_sorted_def
    by (simp add: run_simps live_def exact_fops_def sqrt_9 cong: let_weak_cong)
  have lk: "aoi_object_lookup ?m 0 = Some 0"
    by (simp add: run_simps exact_fops_def sqrt_9 cong: let_weak_cong)
  have dm: "o_d (a_slot ?m 0) = (1, 0) \<and> pos ?m 0 0 = 0 \<and> pos ?m 1 0 = 0"
    by (simp add: run_simps exact_fops_def sqrt_9 cong: let_weak_cong)
  have pu: "pos (the (aoi_update exact_fops ?m 0 3)) 0 0 = 3
      \<and> pos (the (aoi_update exact_fops ?m 0 3)) 1 0 = 0"
    by (simp add: run_simps exact_fops_def sqrt_9 cong: let_weak_cong)
  have p1: "\<exists>a'. aoi_locate ?s 1 5 7 = Some a' \<and> axis_sorted a' 0 \<and> axis_sorted a' 1"
    using c4_order_kept [OF r s0 s1, of 1 5 7 0] by blast
  obtain a' where a': "aoi_update exact_fops ?m 0 3 = Some a'"
    "aoi_object_lookup ?m 0 = Some 0 \<and>
          (if f_gt exact_fops (at2 (o_d (a_slot ?m 0)) 0) (f_of_int exact_fops 0)
           then pos ?m 0 0 \<le> pos a' 0 0 else pos a' 0 0 \<le> pos ?m 0 0) \<and>
          (if f_gt exact_fops (at2 (o_d (a_slot ?m 0)) 1) (f_of_int exact_fops 0)
           then pos ?m 1 0 \<le> pos a' 1 0 else pos a' 1 0 \<le> pos ?m 1 0)
          \<longrightarrow> axis_sorted a' 0 \<and> axis_sorted a' 1"
    using c4_order_kept [OF rm m0 m1, of 0 0 0 3] by blast
  have pa: "pos a' 0 0 = 3 \<and> pos a' 1 0 = 0" using pu a'(1) by simp
  have "axis_sorted a' 0 \<and> axis_sorted a' 1"
    using a'(2) lk dm pa by (simp add: exact_fops_def at2_def)
  then show ?thesis using s0 s1 p1 m0 m1 a'(1) pa by blast
qed

section \<open>Scanning twice\<close>

lemma shift_up_cell:
  "0 \<le> i \<Longrightarrow> shift_up l i j c = (if i < int c \<and> int c \<le> j + 1 then l (c - 1) else l c)"
proof (induction l i j rule: shift_up.induct)
  case (1 l i j)
  show ?case
  proof (cases "i \<le> j")
    case True
    have "shift_up l i j c = shift_up (l(nat (j + 1) := l (nat j))) i (j - 1) c"
      using True by (subst shift_up.simps) simp
    also have "\<dots> = (if i < int c \<and> int c \<le> j then (l(nat (j + 1) := l (nat j))) (c - 1)
        else (l(nat (j + 1) := l (nat j))) c)"
      using 1(1)[OF True 1(2)] by (simp only: diff_add_cancel)
    also have "\<dots> = (if i < int c \<and> int c \<le> j + 1 then l (c - 1) else l c)"
    proof -
      have n: "nat (j + 1) = Suc (nat j)" using True 1(2) by (simp add: nat_add_distrib)
      show ?thesis using True 1(2) unfolding n by (auto simp: nat_eq_iff)
    qed
    finally show ?thesis .
  next
    case False
    then show ?thesis by (subst shift_up.simps) auto
  qed
qed

lemma find_scan_iff:
  "0 \<le> i \<Longrightarrow> (find_scan l v cur i \<noteq> 0) = (\<exists>c. i \<le> int c \<and> int c \<le> cur + 1 \<and> l c = v)"
proof (induction l v cur i rule: find_scan.induct)
  case (1 l v cur i)
  show ?case
  proof (cases "i \<le> cur + 1")
    case True
    show ?thesis
    proof (cases "v = l (nat i)")
      case eq: True
      have "find_scan l v cur i = 1" using True eq by (subst find_scan.simps) simp
      moreover have "\<exists>c. i \<le> int c \<and> int c \<le> cur + 1 \<and> l c = v"
        using True eq 1(2) by (intro exI[of _ "nat i"]) simp
      ultimately show ?thesis by simp
    next
      case ne: False
      have "find_scan l v cur i = find_scan l v cur (i + 1)"
        using True ne by (subst find_scan.simps) simp
      moreover have "(find_scan l v cur (i + 1) \<noteq> 0) =
          (\<exists>c. i + 1 \<le> int c \<and> int c \<le> cur + 1 \<and> l c = v)"
        using 1 True ne by simp
      moreover have "(\<exists>c. i + 1 \<le> int c \<and> int c \<le> cur + 1 \<and> l c = v) =
          (\<exists>c. i \<le> int c \<and> int c \<le> cur + 1 \<and> l c = v)"
      proof (intro iffI; elim exE conjE)
        fix c assume "i + 1 \<le> int c" "int c \<le> cur + 1" "l c = v"
        then show "\<exists>c. i \<le> int c \<and> int c \<le> cur + 1 \<and> l c = v"
          by (intro exI[of _ c]) simp
      next
        fix c assume c: "i \<le> int c" "int c \<le> cur + 1" "l c = v"
        have "int c \<noteq> i" using ne c(3) by auto
        then have "i + 1 \<le> int c" using c(1) by linarith
        then show "\<exists>c. i + 1 \<le> int c \<and> int c \<le> cur + 1 \<and> l c = v"
          using c(2,3) by blast
      qed
      ultimately show ?thesis by simp
    qed
  next
    case False
    then show ?thesis by (subst find_scan.simps) auto
  qed
qed

lemma find_list_iff:
  assumes "increasing l"
  shows "(find_list l v \<noteq> 0) = (v \<in> ids l)"
proof (cases "l 0 = 0 \<or> v > l (nat (l 0 + 1))")
  case True
  have "v \<notin> ids l"
  proof
    assume "v \<in> ids l"
    then obtain c where c: "2 \<le> c" "int c \<le> l 0 + 1" "l c = v" by (auto simp: ids_def)
    then have "l 0 \<noteq> 0" by auto
    then have gt: "v > l (nat (l 0 + 1))" using True by simp
    have "c = nat (l 0 + 1) \<or> c < nat (l 0 + 1)" using c(2) by auto
    moreover have "l c < l (nat (l 0 + 1))" if "c < nat (l 0 + 1)"
    proof -
      have "int (nat (l 0 + 1)) \<le> l 0 + 1" using assms by (simp add: increasing_def)
      then show ?thesis using assms c(1) that unfolding increasing_def by blast
    qed
    ultimately have "l c \<le> l (nat (l 0 + 1))" by auto
    then show False using gt c(3) by simp
  qed
  then show ?thesis using True by (simp add: find_list_def)
next
  case False
  then have "find_list l v = find_scan l v (l 0) 2" by (simp add: find_list_def)
  then show ?thesis using find_scan_iff[of 2 l v "l 0"] by (auto simp: ids_def)
qed

lemma increasing_le:
  assumes "increasing l" and "2 \<le> j" and "j \<le> k" and "int k \<le> l 0 + 1"
  shows "l j \<le> l k"
proof (cases "j = k")
  case True
  then show ?thesis by simp
next
  case False
  then have "j < k" using assms(3) by simp
  then have "l j < l k" using assms(1,2,4) unfolding increasing_def by blast
  then show ?thesis by simp
qed

lemma increasing_lt:
  assumes "increasing l" and "2 \<le> j" and "j < k" and "int k \<le> l 0 + 1"
  shows "l j < l k"
  using assms unfolding increasing_def by blast

lemma insert_at:
  assumes inc: "increasing l" and k: "2 \<le> k" "int k \<le> l 0 + 1"
    and lt: "\<forall>c. 2 \<le> c \<and> c < k \<longrightarrow> l c < v" and vk: "v < l k"
    and m: "m = (\<lambda>c. if c = 0 then l 0 + 1 else if c = k then v
                 else if k < c \<and> int c \<le> l 0 + 2 then l (c - 1) else l c)"
  shows "increasing m \<and> ids m = insert v (ids l)"
proof -
  have m0: "m 0 = l 0 + 1" using m by simp
  have mk: "m k = v" using m k by simp
  have mlo: "m c = l c" if "2 \<le> c" "c < k" for c using m that by simp
  have mhi: "m c = l (c - 1)" if "k < c" "int c \<le> l 0 + 2" for c using m that k by simp
  have l0: "0 \<le> l 0" using inc by (simp add: increasing_def)
  have "m i < m j" if ij: "2 \<le> i" "i < j" "int j \<le> m 0 + 1" for i j
  proof -
    have j2: "int j \<le> l 0 + 2" using ij(3) m0 by simp
    consider "j < k" | "j = k" | "i < k" "k < j" | "i = k" "k < j" | "k < i"
      using ij(2) by linarith
    then show ?thesis
    proof cases
      case 1
      then have "m i = l i" "m j = l j" using mlo ij by simp_all
      moreover have "l i < l j" using 1 k ij by (intro increasing_lt[OF inc]) simp_all
      ultimately show ?thesis by simp
    next
      case 2
      then have "m i = l i" using mlo ij by simp
      then show ?thesis using 2 mk lt ij by simp
    next
      case 3
      have "m i = l i" using mlo ij 3 by simp
      moreover have "m j = l (j - 1)" using mhi 3 j2 by simp
      moreover have "l i < l (j - 1)" using 3 ij j2 by (intro increasing_lt[OF inc]) auto
      ultimately show ?thesis by simp
    next
      case 4
      have "m j = l (j - 1)" using mhi 4 j2 by simp
      moreover have "l k \<le> l (j - 1)" using 4 k j2 by (intro increasing_le[OF inc]) auto
      ultimately show ?thesis using 4 mk vk by simp
    next
      case 5
      have i2: "int i \<le> l 0 + 2" using ij(2) j2 by simp
      have "m i = l (i - 1)" using mhi 5 i2 by simp
      moreover have "m j = l (j - 1)" using mhi 5 ij j2 by simp
      moreover have "l (i - 1) < l (j - 1)"
        using 5 k ij j2 by (intro increasing_lt[OF inc]) auto
      ultimately show ?thesis by simp
    qed
  qed
  then have im: "increasing m" using l0 m0 by (simp add: increasing_def)
  have "ids m = insert v (ids l)"
  proof (intro set_eqI iffI)
    fix x assume "x \<in> ids m"
    then obtain c where c: "2 \<le> c" "int c \<le> l 0 + 2" "x = m c"
      using m0 by (auto simp: ids_def)
    consider "c < k" | "c = k" | "k < c" by linarith
    then show "x \<in> insert v (ids l)"
    proof cases
      case 1
      then have "x = l c" "int c \<le> l 0 + 1" using mlo c k by simp_all
      then show ?thesis using c(1) by (auto simp: ids_def)
    next
      case 2
      then show ?thesis using c mk by simp
    next
      case 3
      then have "x = l (c - 1)" "2 \<le> c - 1" "int (c - 1) \<le> l 0 + 1"
        using mhi c k by auto
      then show ?thesis by (auto simp: ids_def)
    qed
  next
    fix x assume "x \<in> insert v (ids l)"
    then consider "x = v" | c where "2 \<le> c" "int c \<le> l 0 + 1" "x = l c"
      by (auto simp: ids_def)
    then show "x \<in> ids m"
    proof cases
      case 1
      have "2 \<le> k \<and> int k \<le> m 0 + 1 \<and> x = m k" using 1 k mk m0 by simp
      then show ?thesis unfolding ids_def by blast
    next
      case 2
      show ?thesis
      proof (cases "c < k")
        case True
        then have "2 \<le> c \<and> int c \<le> m 0 + 1 \<and> x = m c" using 2 mlo m0 by simp
        then show ?thesis unfolding ids_def by blast
      next
        case False
        then have "m (Suc c) = l c" using mhi[of "Suc c"] 2 by simp
        then have "2 \<le> Suc c \<and> int (Suc c) \<le> m 0 + 1 \<and> x = m (Suc c)"
          using 2 m0 by simp
        then show ?thesis unfolding ids_def by blast
      qed
    qed
  qed
  then show ?thesis using im by simp
qed

lemma insert_end:
  assumes inc: "increasing l" and v: "l 0 = 0 \<or> l (nat (l 0 + 1)) < v"
    and m: "m = l(nat (l 0 + 2) := v, 0 := l 0 + 1)"
  shows "increasing m \<and> ids m = insert v (ids l)"
proof -
  have l0: "0 \<le> l 0" using inc by (simp add: increasing_def)
  let ?e = "nat (l 0 + 2)"
  have e: "int ?e = l 0 + 2" "?e \<noteq> 0" using l0 by simp_all
  have m0: "m 0 = l 0 + 1" using m by simp
  have me: "m ?e = v" using m e by simp
  have mlo: "m c = l c" if "2 \<le> c" "int c \<le> l 0 + 1" for c
  proof -
    have "c \<noteq> ?e" using that e by linarith
    then show ?thesis using m that by simp
  qed
  have top: "l c < v" if "2 \<le> c" "int c \<le> l 0 + 1" for c
  proof -
    have "l 0 \<noteq> 0" using that by linarith
    then have gt: "l (nat (l 0 + 1)) < v" using v by simp
    have "l c \<le> l (nat (l 0 + 1))"
      using that l0 by (intro increasing_le[OF inc]) simp_all
    then show ?thesis using gt by simp
  qed
  have "m i < m j" if ij: "2 \<le> i" "i < j" "int j \<le> m 0 + 1" for i j
  proof (cases "j = ?e")
    case True
    have "int i \<le> l 0 + 1" using ij(2) True e by linarith
    then have "m i = l i" "l i < v" using mlo top ij(1) by simp_all
    then show ?thesis using True me by simp
  next
    case False
    then have j1: "int j \<le> l 0 + 1" using ij(3) m0 e by linarith
    then have "m i = l i" "m j = l j" using mlo ij by simp_all
    moreover have "l i < l j" using ij j1 by (intro increasing_lt[OF inc]) simp_all
    ultimately show ?thesis by simp
  qed
  then have im: "increasing m" using l0 m0 by (simp add: increasing_def)
  have "ids m = insert v (ids l)"
  proof (intro set_eqI iffI)
    fix x assume "x \<in> ids m"
    then obtain c where c: "2 \<le> c" "int c \<le> l 0 + 2" "x = m c"
      using m0 by (auto simp: ids_def)
    show "x \<in> insert v (ids l)"
    proof (cases "c = ?e")
      case True
      then show ?thesis using c me by simp
    next
      case False
      then have "int c \<le> l 0 + 1" using c(2) e by linarith
      then have "2 \<le> c \<and> int c \<le> l 0 + 1 \<and> x = l c" using c mlo by simp
      then show ?thesis unfolding ids_def by blast
    qed
  next
    fix x assume "x \<in> insert v (ids l)"
    then consider "x = v" | c where "2 \<le> c" "int c \<le> l 0 + 1" "x = l c"
      by (auto simp: ids_def)
    then show "x \<in> ids m"
    proof cases
      case 1
      have "2 \<le> ?e \<and> int ?e \<le> m 0 + 1 \<and> x = m ?e" using 1 me m0 e l0 by simp
      then show ?thesis unfolding ids_def by blast
    next
      case 2
      then have "2 \<le> c \<and> int c \<le> m 0 + 1 \<and> x = m c" using mlo m0 by simp
      then show ?thesis unfolding ids_def by blast
    qed
  qed
  then show ?thesis using im by simp
qed

lemma insert_scan_spec:
  assumes "increasing l" and "cur = l 0" and "2 \<le> i" and "i \<le> cur + 1"
    and "v \<le> l (nat (cur + 1))" and "\<forall>c. 2 \<le> c \<and> int c < i \<longrightarrow> l c < v"
  shows "increasing (insert_scan l v cur i) \<and> ids (insert_scan l v cur i) = insert v (ids l)"
  using assms
proof (induction l v cur i rule: insert_scan.induct)
  case (1 l v cur i)
  note inc = 1(2) and cur = 1(3) and i2 = 1(4) and ic = 1(5) and vl = 1(6) and lo = 1(7)
  have ni: "2 \<le> nat i" "int (nat i) = i" using i2 by simp_all
  consider "v < l (nat i)" | "v = l (nat i)" | "l (nat i) < v" by linarith
  then show ?case
  proof cases
    case 1
    let ?m = "\<lambda>c. if c = 0 then l 0 + 1 else if c = nat i then v
                 else if nat i < c \<and> int c \<le> l 0 + 2 then l (c - 1) else l c"
    have "insert_scan l v cur i =
        ((shift_up l i (cur + 1))(nat i := v))(0 := ((shift_up l i (cur + 1))(nat i := v)) 0 + 1)"
      using 1 ic by (subst insert_scan.simps) (simp add: Let_def)
    also have "\<dots> = ?m"
    proof (rule ext)
      fix c
      have i0: "0 \<le> i" using i2 by simp
      have n0: "nat i \<noteq> 0" using i2 by simp
      show "(((shift_up l i (cur + 1))(nat i := v))(0 := ((shift_up l i (cur + 1))(nat i := v)) 0 + 1)) c
          = ?m c"
        using i2 cur n0 by (auto simp: shift_up_cell[OF i0])
    qed
    finally have e: "insert_scan l v cur i = ?m" .
    have "increasing ?m \<and> ids ?m = insert v (ids l)"
    proof (rule insert_at[OF inc _ _ _ _ refl])
      show "2 \<le> nat i" using ni by simp
      show "int (nat i) \<le> l 0 + 1" using ni ic cur by simp
      show "\<forall>c. 2 \<le> c \<and> c < nat i \<longrightarrow> l c < v" using lo ni by (auto simp: zless_nat_eq_int_zless)
      show "v < l (nat i)" by (rule 1)
    qed
    then show ?thesis unfolding e .
  next
    case 2
    have "insert_scan l v cur i = l" using 2 ic by (subst insert_scan.simps) simp
    moreover have "v \<in> ids l" using 2 ni ic cur unfolding ids_def by auto
    ultimately show ?thesis using inc by (simp add: insert_absorb)
  next
    case 3
    have ne: "i \<noteq> cur + 1" using 3 vl by auto
    then have ic': "i + 1 \<le> cur + 1" using ic by simp
    have e: "insert_scan l v cur i = insert_scan l v cur (i + 1)"
      using 3 ic by (subst insert_scan.simps) simp
    have lo': "\<forall>c. 2 \<le> c \<and> int c < i + 1 \<longrightarrow> l c < v"
    proof (intro allI impI)
      fix c assume c: "2 \<le> c \<and> int c < i + 1"
      show "l c < v"
      proof (cases "int c = i")
        case True
        then have "c = nat i" by simp
        then show ?thesis using 3 by simp
      next
        case False
        then show ?thesis using c lo by simp
      qed
    qed
    have "increasing (insert_scan l v cur (i + 1)) \<and>
        ids (insert_scan l v cur (i + 1)) = insert v (ids l)"
      using 1(1)[OF ic _ _ inc cur _ ic' vl lo'] 3 i2 by simp
    then show ?thesis unfolding e .
  qed
qed

lemma same_cells:
  assumes "m 0 = l 0" and "\<And>c. 2 \<le> c \<Longrightarrow> m c = l c"
  shows "increasing m = increasing l" and "ids m = ids l"
proof -
  show "increasing m = increasing l"
  proof -
    have "(m j < m k) = (l j < l k)" if "2 \<le> j \<and> j < k \<and> int k \<le> l 0 + 1" for j k
      using assms(2)[of j] assms(2)[of k] that by simp
    then show ?thesis unfolding increasing_def assms(1) by blast
  qed
  show "ids m = ids l"
  proof (intro set_eqI iffI)
    fix x assume "x \<in> ids m"
    then obtain c where "2 \<le> c" "int c \<le> l 0 + 1" "x = m c"
      unfolding ids_def assms(1) by blast
    then have "2 \<le> c \<and> int c \<le> l 0 + 1 \<and> x = l c" using assms(2) by simp
    then show "x \<in> ids l" unfolding ids_def by blast
  next
    fix x assume "x \<in> ids l"
    then obtain c where "2 \<le> c" "int c \<le> l 0 + 1" "x = l c"
      unfolding ids_def by blast
    then have "2 \<le> c \<and> int c \<le> m 0 + 1 \<and> x = m c" using assms by simp
    then show "x \<in> ids m" unfolding ids_def by blast
  qed
qed

lemma insert_list_spec:
  assumes "increasing l"
  shows "increasing (insert_list l v) \<and> ids (insert_list l v) = insert v (ids l)"
proof -
  define l1 where "l1 = (if l 0 \<ge> l 1 then l(1 := l 1 * 2) else l)"
  have l10: "l1 0 = l 0" by (simp add: l1_def)
  have l1c: "l1 c = l c" if "2 \<le> c" for c using that by (simp add: l1_def)
  have inc1: "increasing l1" using same_cells(1)[of l1 l, OF l10 l1c] assms by simp
  have ids1: "ids l1 = ids l" using same_cells(2)[of l1 l, OF l10 l1c] by simp
  have l0: "0 \<le> l 0" using assms by (simp add: increasing_def)
  have e0: "insert_list l v =
      (if l 0 = 0 \<or> v > l1 (nat (l 0 + 1))
       then (l1(nat (l 0 + 2) := v))(0 := (l1(nat (l 0 + 2) := v)) 0 + 1)
       else insert_scan l1 v (l 0) 2)"
    unfolding insert_list_def l1_def Let_def by (rule refl)
  have n0: "nat (l 0 + 2) \<noteq> 0" using l0 by simp
  show ?thesis
  proof (cases "l 0 = 0 \<or> v > l1 (nat (l 0 + 1))")
    case True
    have "(l1(nat (l 0 + 2) := v)) 0 = l 0" using n0 l10 by simp
    then have e: "insert_list l v = l1(nat (l1 0 + 2) := v, 0 := l1 0 + 1)"
      using True l10 e0 by simp
    have "increasing (insert_list l v) \<and> ids (insert_list l v) = insert v (ids l1)"
      using True l10 by (intro insert_end[OF inc1 _ e]) simp
    then show ?thesis using ids1 by simp
  next
    case False
    then have e: "insert_list l v = insert_scan l1 v (l 0) 2"
      using e0 by simp
    have vle: "v \<le> l1 (nat (l 0 + 1))" using False by simp
    have "increasing (insert_scan l1 v (l 0) 2) \<and>
        ids (insert_scan l1 v (l 0) 2) = insert v (ids l1)"
    proof (rule insert_scan_spec[OF inc1])
      show "l 0 = l1 0" using l10 by simp
      show "(2::int) \<le> 2" by simp
      show "2 \<le> l 0 + 1" using False l0 by simp
      show "v \<le> l1 (nat (l 0 + 1))" by (rule vle)
      show "\<forall>c. 2 \<le> c \<and> int c < 2 \<longrightarrow> l1 c < v" by simp
    qed
    then show ?thesis using e ids1 by simp
  qed
qed

lemma increasing_unique:
  assumes "increasing l" and "increasing m" and "ids l = ids m"
  shows "l 0 = m 0" and "2 \<le> c \<Longrightarrow> int c \<le> l 0 + 1 \<Longrightarrow> l c = m c"
proof -
  define el where "el l = map (\<lambda>k. l (k + 2)) [0..<nat (l 0)]" for l :: int_array
  have set_el: "set (el l) = ids l" for l :: int_array
  proof (intro set_eqI iffI)
    fix x assume "x \<in> set (el l)"
    then obtain k where "k < nat (l 0)" "x = l (k + 2)" by (auto simp: el_def)
    then have "2 \<le> k + 2 \<and> int (k + 2) \<le> l 0 + 1 \<and> x = l (k + 2)" by auto
    then show "x \<in> ids l" unfolding ids_def by blast
  next
    fix x assume "x \<in> ids l"
    then obtain c where c: "2 \<le> c" "int c \<le> l 0 + 1" "x = l c" unfolding ids_def by blast
    have cc: "c - 2 + 2 = c" using c(1) by simp
    have m: "c - 2 \<in> {0..<nat (l 0)}" using c by auto
    have e: "x = (\<lambda>k. l (k + 2)) (c - 2)" using c(3) cc by simp
    show "x \<in> set (el l)" unfolding el_def set_map set_upt using e m by (rule image_eqI)
  qed
  have so: "sorted_wrt (<) (el l)" if "increasing l" for l :: int_array
  proof -
    have "l ([0..<nat (l 0)] ! i + 2) < l ([0..<nat (l 0)] ! j + 2)"
      if "i < j" "j < length [0..<nat (l 0)]" for i j
      using that \<open>increasing l\<close> by (intro increasing_lt) auto
    then show ?thesis unfolding el_def sorted_wrt_map
      by (subst sorted_wrt_iff_nth_less) blast
  qed
  have eq: "el l = el m"
    using strict_sorted_equal[OF so[OF assms(1)] so[OF assms(2)]] set_el assms(3) by simp
  have len: "length (el l) = nat (l 0)" for l :: int_array by (simp add: el_def)
  have "nat (l 0) = nat (m 0)" using eq len by metis
  moreover have "0 \<le> l 0" "0 \<le> m 0" using assms(1,2) by (simp_all add: increasing_def)
  ultimately show l0: "l 0 = m 0" by linarith
  show "l c = m c" if "2 \<le> c" "int c \<le> l 0 + 1"
  proof -
    have c: "c - 2 < nat (l 0)" "c - 2 < nat (m 0)" using that l0 by auto
    have cc: "c - 2 + 2 = c" using that(1) by simp
    have "el l ! (c - 2) = l (c - 2 + 2)" using c(1) unfolding el_def by (subst nth_map) simp_all
    moreover have "el m ! (c - 2) = m (c - 2 + 2)"
      using c(2) unfolding el_def by (subst nth_map) simp_all
    ultimately show ?thesis using eq unfolding cc by simp
  qed
qed

lemma emit_rest_none: "hi < i \<Longrightarrow> emit_rest el r l e i hi = (el, r)"
  by (subst emit_rest.simps) simp

lemma enter_all_none: "cur_list 0 \<le> i \<Longrightarrow> enter_all el r cur_list i = (el, r)"
  by (subst enter_all.simps) simp

lemma trigger_diff_same:
  assumes "2 \<le> k"
    and "\<And>c. 2 \<le> c \<Longrightarrow> int c \<le> cnt + 1 \<Longrightarrow> n c = ol c"
    and "\<And>c. 2 \<le> c \<Longrightarrow> int c \<le> cnt + 1 \<Longrightarrow> aoi_object_lookup a (ol c) \<noteq> None"
  shows "trigger_diff a ol n cnt cnt k k el r = (el, r)"
  using assms(1)
proof (induction "nat (cnt + 2 - k)" arbitrary: k)
  case 0
  then have "k > cnt + 1" by simp
  then show ?case by (subst trigger_diff.simps) (simp add: emit_rest_none)
next
  case (Suc x)
  then have k: "k \<le> cnt + 1" by simp
  have nk: "2 \<le> nat k" "int (nat k) \<le> cnt + 1" using Suc.prems k by simp_all
  obtain y where y: "aoi_object_lookup a (ol (nat k)) = Some y"
    using assms(3)[OF nk] by blast
  have "trigger_diff a ol n cnt cnt k k el r = trigger_diff a ol n cnt cnt (k + 1) (k + 1) el r"
    using k assms(2)[OF nk] y by (subst trigger_diff.simps) simp
  also have "\<dots> = (el, r)" using Suc.hyps(2) Suc.prems by (intro Suc.hyps(1)) simp_all
  finally show ?case .
qed

lemma linked_next: "dll a i (as @ bs) \<Longrightarrow> linked (nxt a i) (hd_opt bs) bs"
proof (induction bs arbitrary: as)
  case Nil
  then show ?case by simp
next
  case (Cons q bs)
  have n: "nxt a i q = hd_opt bs" using dll_mid(1)[OF Cons.prems] .
  have "dll a i ((as @ [q]) @ bs)" using Cons.prems by simp
  from Cons.IH[OF this] show ?case using n by simp
qed

lemma linked_prev: "dll a i (as @ bs) \<Longrightarrow> linked (prv a i) (hd_opt (rev as)) (rev as)"
proof (induction as arbitrary: bs rule: rev_induct)
  case Nil
  then show ?case by simp
next
  case (snoc q as)
  have d: "dll a i (as @ q # bs)" using snoc.prems by simp
  have n: "prv a i q = hd_opt (rev as)" using dll_mid(2)[OF d] .
  from snoc.IH[OF d] show ?case using n by simp
qed

lemma trigger_walk_linked:
  assumes "linked (if i = 0 then prv a 0 else nxt a 0) p ps" and "increasing cl"
  shows "\<exists>cl'. trigger_walk a obj er lr i p cl = Some cl' \<and> increasing cl' \<and>
     ids cl' = ids cl \<union> (\<lambda>q. o_id (a_slot a q)) `
       {q \<in> set (takeWhile (near a obj lr) ps). seen a obj er lr (o_o_list (a_slot a obj)) q}"
  using assms
proof (induction ps arbitrary: p cl)
  case Nil
  then have "p = None" by simp
  then have "trigger_walk a obj er lr i p cl = Some cl" by (subst trigger_walk.simps) simp
  then show ?case using Nil.prems(2) by simp
next
  case (Cons q ps)
  have p: "p = Some q" using Cons.prems(1) by simp
  let ?f = "if i = 0 then prv a 0 else nxt a 0"
  have lk: "linked ?f (?f q) ps" using Cons.prems(1) by simp
  show ?case
  proof (cases "near a obj lr q")
    case False
    then have "trigger_walk a obj er lr i p cl = Some cl"
      using p by (subst trigger_walk.simps) (simp add: near_def Let_def)
    then show ?thesis using False Cons.prems(2) by simp
  next
    case True
    let ?s = "seen a obj er lr (o_o_list (a_slot a obj)) q"
    let ?cl = "if ?s then insert_list cl (o_id (a_slot a q)) else cl"
    have step: "trigger_walk a obj er lr i p cl = trigger_walk a obj er lr i (?f q) ?cl"
      using p True by (subst trigger_walk.simps) (auto simp: near_def seen_def Let_def)
    have inc: "increasing ?cl" using insert_list_spec[OF Cons.prems(2)] Cons.prems(2) by simp
    have idc: "ids ?cl = ids cl \<union> (if ?s then {o_id (a_slot a q)} else {})"
      using insert_list_spec[OF Cons.prems(2)] by simp
    from Cons.IH[OF lk inc] obtain cl' where
      c: "trigger_walk a obj er lr i (?f q) ?cl = Some cl'" "increasing cl'"
        "ids cl' = ids ?cl \<union> (\<lambda>q. o_id (a_slot a q)) `
          {q \<in> set (takeWhile (near a obj lr) ps). seen a obj er lr (o_o_list (a_slot a obj)) q}"
      by blast
    have "ids cl' = ids cl \<union> (\<lambda>q. o_id (a_slot a q)) `
       {q' \<in> set (takeWhile (near a obj lr) (q # ps)).
          seen a obj er lr (o_o_list (a_slot a obj)) q'}"
      unfolding c(3) idc using True by auto
    then show ?thesis using step c(1,2) by simp
  qed
qed

lemma trigger_scan:
  assumes lk: "aoi_object_lookup a i = Some obj" and dl: "dll a 0 (as @ obj # bs)"
  shows "\<exists>cl el r. aoi_trigger a i er lr =
       Some (r, upd_slot (upd_slot (a\<lparr>a_elist := el\<rparr>) obj (\<lambda>ob. ob\<lparr>o_n_list := o_o_list ob\<rparr>))
                  obj (\<lambda>ob. ob\<lparr>o_o_list := cl\<rparr>))
     \<and> increasing cl
     \<and> ids cl = (\<lambda>q. o_id (a_slot a q)) `
         {q \<in> set (takeWhile (near a obj lr) (rev as)) \<union> set (takeWhile (near a obj lr) bs).
            seen a obj er lr (o_o_list (a_slot a obj)) q}
     \<and> (el, r) = (if o_o_list (a_slot a obj) 0 = 0 then enter_all (a_elist a) 0 cl 0
          else trigger_diff a (o_o_list (a_slot a obj)) cl (o_o_list (a_slot a obj) 0) (cl 0)
                 2 2 (a_elist a) 0)"
proof -
  let ?c0 = "(o_n_list (a_slot a obj))(0 := 0)"
  let ?ol = "o_o_list (a_slot a obj)"
  let ?img = "\<lambda>ps. (\<lambda>q. o_id (a_slot a q)) `
       {q \<in> set (takeWhile (near a obj lr) ps). seen a obj er lr ?ol q}"
  have i0: "increasing ?c0" by (simp add: increasing_def)
  have id0: "ids ?c0 = {}" by (auto simp: ids_def)
  have lp: "linked (if (0::nat) = 0 then prv a 0 else nxt a 0) (prv a 0 obj) (rev as)"
    using linked_prev[of a 0 as "obj # bs"] dl dll_mid(2)[OF dl] by simp
  from trigger_walk_linked[OF lp i0, of obj er lr] obtain c1 where
    c1: "trigger_walk a obj er lr 0 (prv a 0 obj) ?c0 = Some c1" "increasing c1"
      "ids c1 = ids ?c0 \<union> ?img (rev as)" by blast
  have "dll a 0 ((as @ [obj]) @ bs)" using dl by simp
  from linked_next[OF this] have
    ln: "linked (if (1::nat) = 0 then prv a 0 else nxt a 0) (nxt a 0 obj) bs"
    using dll_mid(1)[OF dl] by simp
  from trigger_walk_linked[OF ln c1(2), of obj er lr] obtain c2 where
    c2: "trigger_walk a obj er lr 1 (nxt a 0 obj) c1 = Some c2" "increasing c2"
      "ids c2 = ids c1 \<union> ?img bs" by blast
  define ev where "ev = (if ?ol 0 = 0 then enter_all (a_elist a) 0 c2 0
          else trigger_diff a ?ol c2 (?ol 0) (c2 0) 2 2 (a_elist a) 0)"
  have t: "aoi_trigger a i er lr =
       Some (snd ev, upd_slot (upd_slot (a\<lparr>a_elist := fst ev\<rparr>) obj
                 (\<lambda>ob. ob\<lparr>o_n_list := o_o_list ob\<rparr>)) obj (\<lambda>ob. ob\<lparr>o_o_list := c2\<rparr>))"
    using lk c1(1) c2(1) unfolding aoi_trigger_def Let_def ev_def
    by (simp add: split_beta)
  have "ids c2 = (\<lambda>q. o_id (a_slot a q)) `
         {q \<in> set (takeWhile (near a obj lr) (rev as)) \<union> set (takeWhile (near a obj lr) bs).
            seen a obj er lr ?ol q}"
    unfolding c2(3) c1(3) id0 by blast
  moreover have "(fst ev, snd ev) = ev" by simp
  ultimately show ?thesis using t c2(2) unfolding ev_def by blast
qed

text \<open>
  C3. In every reachable state, for every id and every pair of radii,
  \<^verbatim>\<open>aoi_trigger\<close> returns, and a second \<^verbatim>\<open>aoi_trigger\<close> with the same id and radii,
  called on the state the first one left, returns 0 events.
\<close>

theorem c3_second_scan_no_event:
  assumes "reachable F a"
  shows "\<exists>r a1 a2. aoi_trigger a i er lr = Some (r, a1) \<and>
     aoi_trigger a1 i er lr = Some (0, a2)"
proof (cases "aoi_object_lookup a i")
  case None
  then have "aoi_trigger a i er lr = Some (0, a)" by (simp add: aoi_trigger_def)
  then show ?thesis by simp
next
  case (Some obj)
  have wf: "aoi_wf a" by (rule reachable_wf[OF assms])
  have lo: "live a obj" by (rule lookup_live[OF Some])
  obtain xs where xs: "dll a 0 xs" "set xs = {k. live a k}" using wf_D(5)[OF wf] by blast
  have "obj \<in> set xs" using lo xs(2) by simp
  then obtain as bs where sp: "xs = as @ obj # bs" by (meson split_list)
  have dl: "dll a 0 (as @ obj # bs)" using xs(1) sp by simp
  let ?W = "set (takeWhile (near a obj lr) (rev as)) \<union> set (takeWhile (near a obj lr) bs)"
  have Wl: "live a q" if "q \<in> ?W" for q
  proof -
    have "q \<in> set (rev as) \<or> q \<in> set bs" using that by (auto dest: set_takeWhileD)
    then have "q \<in> set xs" using sp by auto
    then show ?thesis using xs(2) by simp
  qed
  from trigger_scan[OF Some dl, of er lr] obtain cl el r where
    t1: "aoi_trigger a i er lr =
       Some (r, upd_slot (upd_slot (a\<lparr>a_elist := el\<rparr>) obj (\<lambda>ob. ob\<lparr>o_n_list := o_o_list ob\<rparr>))
                  obj (\<lambda>ob. ob\<lparr>o_o_list := cl\<rparr>))"
    and icl: "increasing cl"
    and idc: "ids cl = (\<lambda>q. o_id (a_slot a q)) ` {q \<in> ?W. seen a obj er lr (o_o_list (a_slot a obj)) q}"
    by blast
  define a1 where "a1 = upd_slot (upd_slot (a\<lparr>a_elist := el\<rparr>) obj
      (\<lambda>ob. ob\<lparr>o_n_list := o_o_list ob\<rparr>)) obj (\<lambda>ob. ob\<lparr>o_o_list := cl\<rparr>)"
  have t1': "aoi_trigger a i er lr = Some (r, a1)" using t1 by (simp add: a1_def)
  have wf1: "aoi_wf a1" by (rule trigger_wf[OF wf t1'])
  have id1: "o_id (a_slot a1 k) = o_id (a_slot a k)" for k by (simp add: a1_def)
  have ty1: "o_type (a_slot a1 k) = o_type (a_slot a k)" for k by (simp add: a1_def)
  have p1: "pos a1 j k = pos a j k" for j k by (simp add: a1_def pos_def)
  have ol1: "o_o_list (a_slot a1 obj) = cl" by (simp add: a1_def)
  have lk1: "aoi_object_lookup a1 j = aoi_object_lookup a j" for j
    by (rule lookup_cong) (simp_all add: id1 ty1)
  have Some1: "aoi_object_lookup a1 i = Some obj" using Some lk1 by simp
  have dl1: "dll a1 0 (as @ obj # bs)"
    by (rule dll_frame[OF dl]) (simp_all add: a1_def nxt_def prv_def)
  have nr1: "near a1 obj lr = near a obj lr" by (rule ext) (simp add: near_def p1)
  from trigger_scan[OF Some1 dl1, of er lr] obtain cl2 el2 r2 where
    t2: "aoi_trigger a1 i er lr =
       Some (r2, upd_slot (upd_slot (a1\<lparr>a_elist := el2\<rparr>) obj (\<lambda>ob. ob\<lparr>o_n_list := o_o_list ob\<rparr>))
                  obj (\<lambda>ob. ob\<lparr>o_o_list := cl2\<rparr>))"
    and icl2: "increasing cl2"
    and idc2: "ids cl2 = (\<lambda>q. o_id (a_slot a q)) ` {q \<in> ?W. seen a1 obj er lr cl q}"
    and ev2: "(el2, r2) = (if cl 0 = 0 then enter_all (a_elist a1) 0 cl2 0
          else trigger_diff a1 cl cl2 (cl 0) (cl2 0) 2 2 (a_elist a1) 0)"
    unfolding nr1 ol1 id1 by blast
  have inj: "q = q'" if "q \<in> ?W" "q' \<in> ?W" "o_id (a_slot a q) = o_id (a_slot a q')" for q q'
  proof -
    have "q = AOI_HASH_ID (o_id (a_slot a q))" using wf_D(4)[OF wf Wl[OF that(1)]] by simp
    also have "\<dots> = AOI_HASH_ID (o_id (a_slot a q'))" by (simp only: that(3))
    also have "\<dots> = q'" by (rule wf_D(4)[OF wf Wl[OF that(2)]])
    finally show ?thesis .
  qed
  have s12: "seen a1 obj er lr cl q = seen a obj er lr (o_o_list (a_slot a obj)) q"
    if q: "q \<in> ?W" for q
  proof -
    have mem: "(o_id (a_slot a q) \<in> ids cl) = seen a obj er lr (o_o_list (a_slot a obj)) q"
    proof
      assume "o_id (a_slot a q) \<in> ids cl"
      then obtain q' where q': "q' \<in> ?W" "seen a obj er lr (o_o_list (a_slot a obj)) q'"
        "o_id (a_slot a q) = o_id (a_slot a q')" unfolding idc by blast
      then have "q = q'" using inj[OF q q'(1)] by simp
      then show "seen a obj er lr (o_o_list (a_slot a obj)) q" using q'(2) by simp
    next
      assume "seen a obj er lr (o_o_list (a_slot a obj)) q"
      then show "o_id (a_slot a q) \<in> ids cl" unfolding idc using q by blast
    qed
    show ?thesis
      unfolding seen_def[of a1] p1 id1 find_list_iff[OF icl] mem
      by (auto simp: seen_def Let_def)
  qed
  have "ids cl2 = ids cl" unfolding idc2 idc using s12 by blast
  then have same: "ids cl2 = ids cl" .
  have c0: "cl2 0 = cl 0" by (rule increasing_unique(1)[OF icl2 icl same])
  have cc: "cl2 c = cl c" if "2 \<le> c" "int c \<le> cl 0 + 1" for c
    using increasing_unique(2)[OF icl2 icl same that(1)] that(2) c0 by simp
  have lkc: "aoi_object_lookup a1 (cl c) \<noteq> None" if "2 \<le> c" "int c \<le> cl 0 + 1" for c
  proof -
    have "cl c \<in> ids cl" using that unfolding ids_def by blast
    then obtain q where q: "q \<in> ?W" "cl c = o_id (a_slot a q)" unfolding idc by blast
    have "aoi_object_lookup a (o_id (a_slot a q)) = Some q"
      by (rule wf_lookup_live[OF wf Wl[OF q(1)]])
    then show ?thesis using q(2) lk1 by simp
  qed
  have "(el2, r2) = (a_elist a1, 0)"
  proof (cases "cl 0 = 0")
    case True
    then show ?thesis using ev2 c0 by (simp add: enter_all_none)
  next
    case False
    have "trigger_diff a1 cl cl2 (cl 0) (cl 0) 2 2 (a_elist a1) 0 = (a_elist a1, 0)"
      by (rule trigger_diff_same) (simp_all add: cc lkc)
    then show ?thesis using ev2 c0 False by simp
  qed
  then have "r2 = 0" by simp
  then show ?thesis using t1' t2 by blast
qed

theorem c3_second_scan_no_event_witness:
  "map_option fst (aoi_trigger
      (snd (aoi_enter exact_fops (snd (aoi_enter exact_fops (aoi_init exact_fops) 0)) 0))
      0 100 130) = Some 1
   \<and> (\<exists>r a1 a2. aoi_trigger
         (snd (aoi_enter exact_fops (snd (aoi_enter exact_fops (aoi_init exact_fops) 0)) 0))
         0 100 130 = Some (r, a1) \<and> aoi_trigger a1 0 100 130 = Some (0, a2))"
proof -
  let ?s = "snd (aoi_enter exact_fops (snd (aoi_enter exact_fops (aoi_init exact_fops) 0)) 0)"
  have r: "reachable exact_fops ?s"
    unfolding reachable_def using run_two[of exact_fops "aoi_init exact_fops" 0 0] by blast
  have e: "map_option fst (aoi_trigger ?s 0 100 130) = Some 1"
    by (simp add: run_simps cong: let_weak_cong)
  show ?thesis
    using c3_second_scan_no_event [OF r, of 0 100 130] e by simp
qed

section \<open>The events fit the buffer\<close>










































end
